theory Spec2Isabelle
  imports Main "HOL-Library.Sublist"
begin

text \<open>
  A model of \<open>worker.js\<close>, the Cloudflare Worker that crawls the pages of
  \<open>images.chainguard.dev/directory\<close>, keeps the image names it finds in one snapshot in an
  R2 bucket and serves them. Functions of the worker keep their names. What the worker
  gets from outside is a parameter: the bucket, the clock (\<open>epoch()\<close>), the pages of the
  upstream and the comparison of \<open>localeCompare\<close>. The bucket is taken to answer every
  read and write.
\<close>

section \<open>Strings, character classes and the two regular expressions of worker.js\<close>

text \<open>
  Strings are \<^typ>\<open>string\<close>. The character classes of the source's regular expressions
  are ASCII classes, so a character outside ASCII is in none of them; \<open>toLowerCase\<close> is
  modelled on the ASCII letters and leaves every other character as it is.
\<close>

definition lower_chars :: string where
  "lower_chars = ''abcdefghijklmnopqrstuvwxyz''"

definition upper_chars :: string where
  "upper_chars = ''ABCDEFGHIJKLMNOPQRSTUVWXYZ''"

definition digit_chars :: string where
  "digit_chars = ''0123456789''"

text \<open>The class \<open>[A-Za-z0-9]\<close>.\<close>

definition is_alnum :: "char \<Rightarrow> bool" where
  "is_alnum c \<longleftrightarrow> c \<in> set lower_chars \<or> c \<in> set upper_chars \<or> c \<in> set digit_chars"

text \<open>The class \<open>[a-z0-9]\<close>.\<close>

definition is_lower_alnum :: "char \<Rightarrow> bool" where
  "is_lower_alnum c \<longleftrightarrow> c \<in> set lower_chars \<or> c \<in> set digit_chars"

text \<open>The word characters \<open>\w\<close> = \<open>[A-Za-z0-9_]\<close>, which decide the assertion \<open>\b\<close>.\<close>

definition is_word :: "char \<Rightarrow> bool" where
  "is_word c \<longleftrightarrow> is_alnum c \<or> c = CHR ''_''"

text \<open>The class \<open>[A-Za-z0-9._+\-]\<close> of the capture group.\<close>

definition is_group_char :: "char \<Rightarrow> bool" where
  "is_group_char c \<longleftrightarrow> is_alnum c \<or> c \<in> set ''._+-''"

text \<open>The class \<open>[a-z0-9._+\-]\<close> of \<open>SLUG_RE\<close>.\<close>

definition is_slug_char :: "char \<Rightarrow> bool" where
  "is_slug_char c \<longleftrightarrow> is_lower_alnum c \<or> c \<in> set ''._+-''"

definition lower_char :: "char \<Rightarrow> char" where
  "lower_char c = (case map_of (zip upper_chars lower_chars) c of Some d \<Rightarrow> d | None \<Rightarrow> c)"

definition toLowerCase :: "string \<Rightarrow> string" where
  "toLowerCase s = map lower_char s"

text \<open>\<open>const SLUG_RE = /^[a-z0-9][a-z0-9._+\-]*$/\<close>, as \<open>SLUG_RE.test\<close>.\<close>

definition SLUG_RE :: "string \<Rightarrow> bool" where
  "SLUG_RE s = (case s of [] \<Rightarrow> False | c # cs \<Rightarrow> is_lower_alnum c \<and> list_all is_slug_char cs)"

definition BAD_SLUGS :: "string list" where
  "BAD_SLUGS = [''fips'', ''free'', ''validated'', ''hardened'', ''stig'', ''latest'',
     ''changed'', ''last'', ''tag'']"

definition ORIGIN :: string where
  "ORIGIN = ''https://images.chainguard.dev''"

definition MAX_PAGES_CAP :: int where
  "MAX_PAGES_CAP = 5000"

definition BATCH_PAGES_DEFAULT :: int where
  "BATCH_PAGES_DEFAULT = 5"

subsection \<open>\<open>encodeURIComponent\<close>\<close>

text \<open>
  \<open>encodeURIComponent\<close> keeps \<open>A-Z a-z 0-9 - _ . ! ~ * ' ( )\<close> and writes every other
  byte of the UTF-8 form as \<open>%XX\<close> in upper-case hexadecimal; in particular \<open>+\<close> becomes
  \<open>%2B\<close>.
\<close>

definition is_unreserved :: "char \<Rightarrow> bool" where
  "is_unreserved c \<longleftrightarrow> is_alnum c \<or> c \<in> set ''-_.!~*()'' \<or> c = CHR 0x27"

definition hex_digit :: "nat \<Rightarrow> char" where
  "hex_digit n = ''0123456789ABCDEF'' ! (n mod 16)"

definition encode_char :: "char \<Rightarrow> string" where
  "encode_char c =
     (if is_unreserved c then [c]
      else [CHR ''%'', hex_digit (of_char c div 16), hex_digit (of_char c mod 16)])"

definition encodeURIComponent :: "string \<Rightarrow> string" where
  "encodeURIComponent s = concat (map encode_char s)"

subsection \<open>The pattern \<open>/\/directory\/image\/([A-Za-z0-9][A-Za-z0-9._+\-]*)\b/\<close>\<close>

definition DIR_IMAGE :: string where
  "DIR_IMAGE = ''/directory/image/''"

text \<open>
  \<open>\b\<close> holds between two positions when exactly one of the characters on its sides is
  a word character; the end of the input counts as a non-word character.
\<close>

definition next_is_word :: "string \<Rightarrow> bool" where
  "next_is_word rest = (case rest of [] \<Rightarrow> False | d # _ \<Rightarrow> is_word d)"

text \<open>
  The greedy star with backtracking: the group (held reversed, its last character first)
  gives characters back to the rest of the input, one at a time, until \<open>\b\<close> holds after
  it. The first character of the group is not optional, so an empty group is no match.
\<close>

fun backtrack :: "string \<Rightarrow> string \<Rightarrow> string option" where
  "backtrack [] rest = None"
| "backtrack (c # g) rest =
     (if is_word c \<noteq> next_is_word rest then Some (rev (c # g))
      else backtrack g (c # rest))"

text \<open>The pattern matched at the start of the input: the capture group, if it matches.\<close>

definition match_here :: "string \<Rightarrow> string option" where
  "match_here s =
     (if prefix DIR_IMAGE s then
        (case drop (length DIR_IMAGE) s of
           [] \<Rightarrow> None
         | c # cs \<Rightarrow>
             if is_alnum c
             then backtrack (rev (c # takeWhile is_group_char cs)) (dropWhile is_group_char cs)
             else None)
      else None)"

text \<open>\<open>exec\<close> returns the leftmost match: the start positions are tried from left to right.\<close>

fun slug_exec :: "string \<Rightarrow> string option" where
  "slug_exec [] = None"
| "slug_exec (c # cs) =
     (case match_here (c # cs) of Some g \<Rightarrow> Some g | None \<Rightarrow> slug_exec cs)"

text \<open>
  \<open>extractSlugFromUrl\<close> and \<open>extractSlugFromHref\<close> have the same body. The argument is
  \<open>None\<close> for a missing or null URL; the empty string is falsy too. The capture group has
  no \<open>%\<close>, so \<open>decodeURIComponent\<close> returns it as it is and cannot raise.
\<close>

definition extractSlugFromUrl :: "string option \<Rightarrow> string option" where
  "extractSlugFromUrl url =
     (case url of
        None \<Rightarrow> None
      | Some u \<Rightarrow>
          if u = [] then None
          else (case slug_exec u of
                  None \<Rightarrow> None
                | Some m \<Rightarrow>
                    let slug = toLowerCase m
                    in if SLUG_RE slug \<and> slug \<notin> set BAD_SLUGS then Some slug else None))"

definition extractSlugFromHref :: "string option \<Rightarrow> string option" where
  "extractSlugFromHref href =
     (case href of
        None \<Rightarrow> None
      | Some u \<Rightarrow>
          if u = [] then None
          else (case slug_exec u of
                  None \<Rightarrow> None
                | Some m \<Rightarrow>
                    let slug = toLowerCase m
                    in if SLUG_RE slug \<and> slug \<notin> set BAD_SLUGS then Some slug else None))"

subsection \<open>Wildcard search\<close>

text \<open>
  \<open>query.slice(1, -1)\<close> drops the first and the last character (and is empty for a query
  of one character), \<open>slice(1)\<close> the first, \<open>slice(0, -1)\<close> the last.
\<close>

definition startsWith_star :: "string \<Rightarrow> bool" where
  "startsWith_star q = prefix ''*'' q"

definition endsWith_star :: "string \<Rightarrow> bool" where
  "endsWith_star q = suffix ''*'' q"

definition matchSlug :: "string \<Rightarrow> string \<Rightarrow> bool" where
  "matchSlug slug query =
     (if startsWith_star query \<and> endsWith_star query then sublist (butlast (drop 1 query)) slug
      else if startsWith_star query then suffix (drop 1 query) slug
      else if endsWith_star query then prefix (butlast query) slug
      else slug = query)"

section \<open>The snapshot\<close>

record item =
  name :: string
  url :: string

text \<open>
  The persisted blob, as \<open>JSON.parse\<close> returns it. It may have been written by hand, so
  every property may be missing (\<open>None\<close>, also for \<open>null\<close>); a property that is present
  has the JSON type the worker writes. Numbers are integers. The \<open>seen\<close> property of the
  blob is left out: \<open>loadSnapshot\<close> overwrites it before anything reads it.
\<close>

record raw_item =
  raw_name :: "string option"
  raw_url :: "string option"

record stored =
  s_items :: "raw_item list option"
  s_cursor :: "int option"
  s_lastPage :: "int option"
  s_complete :: "bool option"
  s_lastUpdated :: "int option"
  s_cronTicks :: "int option"

text \<open>
  The snapshot in memory. \<open>seen\<close> is a JavaScript object used as an index; the model keeps
  what the code reads of it, whether \<open>seen[key]\<close> is truthy.
\<close>

record snapshot =
  items :: "item list"
  seen :: "string \<Rightarrow> bool"
  cursor :: int
  lastPage :: "int option"
  complete :: bool
  lastUpdated :: int
  cronTicks :: int

text \<open>The R2 bucket holds one object under \<open>SNAPSHOT_KEY\<close>, or none.\<close>

type_synonym bucket = "stored option"

text \<open>
  \<open>a.localeCompare(b, "en", { sensitivity: "base" })\<close> is a function of the platform
  (its order comes from the collation data of the runtime), so the comparison is a
  parameter of everything that sorts.
\<close>

type_synonym comparator = "string \<Rightarrow> string \<Rightarrow> int"

text \<open>
  \<open>Array.prototype.sort\<close> is a stable sort: an element goes behind the elements that
  do not compare greater than it. (For a comparator that is no consistent order the
  language leaves the result to the engine; the model is one such result, and always a
  permutation.)
\<close>

fun insert_item :: "comparator \<Rightarrow> item \<Rightarrow> item list \<Rightarrow> item list" where
  "insert_item lc x [] = [x]"
| "insert_item lc x (y # ys) =
     (if lc (name x) (name y) < 0 then x # y # ys else y # insert_item lc x ys)"

definition sortItems :: "comparator \<Rightarrow> item list \<Rightarrow> item list" where
  "sortItems lc xs = foldl (\<lambda>acc x. insert_item lc x acc) [] xs"

definition item_url :: "string \<Rightarrow> string" where
  "item_url slug = ORIGIN @ ''/directory/image/'' @ encodeURIComponent slug"

definition mk_item :: "string \<Rightarrow> item" where
  "mk_item slug = \<lparr> name = slug, url = item_url slug \<rparr>"

text \<open>
  \<open>freshSnapshot\<close> writes \<open>seen: {}\<close>, an object that inherits from \<open>Object.prototype\<close>:
  \<open>seen[key]\<close> is truthy for the names of the inherited properties.
\<close>

definition Object_prototype_keys :: "string list" where
  "Object_prototype_keys = [''constructor'', ''__defineGetter__'', ''__defineSetter__'',
     ''hasOwnProperty'', ''__lookupGetter__'', ''__lookupSetter__'', ''isPrototypeOf'',
     ''propertyIsEnumerable'', ''toString'', ''valueOf'', ''__proto__'', ''toLocaleString'']"

definition freshSnapshot :: "int \<Rightarrow> snapshot" where
  "freshSnapshot now =
     \<lparr> items = [], seen = (\<lambda>k. k \<in> set Object_prototype_keys), cursor = 1, lastPage = None,
       complete = False, lastUpdated = now, cronTicks = 0 \<rparr>"

text \<open>What \<open>JSON.parse\<close> reads back from \<open>JSON.stringify(snap)\<close>.\<close>

definition to_raw :: "item \<Rightarrow> raw_item" where
  "to_raw it = \<lparr> raw_name = Some (name it), raw_url = Some (url it) \<rparr>"

definition to_stored :: "snapshot \<Rightarrow> stored" where
  "to_stored sn =
     \<lparr> s_items = Some (map to_raw (items sn)), s_cursor = Some (cursor sn),
       s_lastPage = lastPage sn, s_complete = Some (complete sn),
       s_lastUpdated = Some (lastUpdated sn), s_cronTicks = Some (cronTicks sn) \<rparr>"

definition saveSnapshot :: "snapshot \<Rightarrow> bucket" where
  "saveSnapshot sn = Some (to_stored sn)"

text \<open>\<open>v || d\<close> on a number that may be missing: \<open>0\<close> is falsy.\<close>

definition or_else :: "int option \<Rightarrow> int \<Rightarrow> int" where
  "or_else v d = (case v of None \<Rightarrow> d | Some n \<Rightarrow> if n = 0 then d else n)"

text \<open>
  The loop of \<open>loadSnapshot\<close> over the stored items, with its accumulators \<open>minimal\<close> and
  \<open>seen\<close> (created by \<open>Object.create(null)\<close>, so with no inherited property).
\<close>

definition candidate_of :: "raw_item \<Rightarrow> string option" where
  "candidate_of it =
     (let slugFromUrl = extractSlugFromUrl (raw_url it);
          slugFromName = map_option toLowerCase (raw_name it)
      in case slugFromUrl of Some s \<Rightarrow> Some s | None \<Rightarrow> slugFromName)"

fun repair_loop ::
  "raw_item list \<Rightarrow> item list \<times> (string \<Rightarrow> bool) \<Rightarrow> item list \<times> (string \<Rightarrow> bool)" where
  "repair_loop [] acc = acc"
| "repair_loop (it # its) (minimal, sn) =
     (case candidate_of it of
        None \<Rightarrow> repair_loop its (minimal, sn)
      | Some c \<Rightarrow>
          if c = [] \<or> \<not> SLUG_RE c \<or> c \<in> set BAD_SLUGS \<or> sn c
          then repair_loop its (minimal, sn)
          else repair_loop its (minimal @ [mk_item c], sn(c := True)))"

text \<open>The repair pass: the branch of \<open>loadSnapshot\<close> for a bucket that holds the object.\<close>

definition repair :: "comparator \<Rightarrow> int \<Rightarrow> stored \<Rightarrow> snapshot" where
  "repair lc now s =
     (let (minimal, sn) =
            repair_loop (case s_items s of Some xs \<Rightarrow> xs | None \<Rightarrow> []) ([], \<lambda>k. False)
      in \<lparr> items = sortItems lc minimal, seen = sn, cursor = or_else (s_cursor s) 1,
           lastPage = s_lastPage s,
           complete = (case s_complete s of Some b \<Rightarrow> b | None \<Rightarrow> False),
           lastUpdated = or_else (s_lastUpdated s) now,
           cronTicks = or_else (s_cronTicks s) 0 \<rparr>)"

text \<open>
  \<open>loadSnapshot\<close> returns the snapshot and the bucket: an empty bucket receives a fresh
  snapshot, a bucket with the object is only read.
\<close>

definition loadSnapshot :: "comparator \<Rightarrow> int \<Rightarrow> bucket \<Rightarrow> snapshot \<times> bucket" where
  "loadSnapshot lc now b =
     (case b of
        Some s \<Rightarrow> (repair lc now s, b)
      | None \<Rightarrow> (freshSnapshot now, saveSnapshot (freshSnapshot now)))"

section \<open>The crawl\<close>

text \<open>
  What \<open>fetchWithEdgeCache\<close> gives for a page: the promise is rejected (with an error, of
  which the model keeps the message), or it is fulfilled with a response, of which the
  model keeps \<open>res.ok\<close> and the \<open>href\<close> values of the anchors of the body, in the order in
  which \<open>linkRe.exec\<close> finds them.
\<close>

datatype fetch_outcome = is_Rejected: Rejected string | Response bool "string list"

type_synonym upstream = "int \<Rightarrow> fetch_outcome"

datatype error = FetchError string | ReferenceError string

fun parseCards_loop :: "string list \<Rightarrow> item list \<Rightarrow> string set \<Rightarrow> item list" where
  "parseCards_loop [] out sn = out"
| "parseCards_loop (h # hs) out sn =
     (case extractSlugFromHref (Some h) of
        None \<Rightarrow> parseCards_loop hs out sn
      | Some slug \<Rightarrow>
          if slug \<in> sn then parseCards_loop hs out sn
          else parseCards_loop hs (out @ [mk_item slug]) (insert slug sn))"

definition parseCards :: "string list \<Rightarrow> item list" where
  "parseCards hs = parseCards_loop hs [] {}"

definition fetchDirectoryPage :: "upstream \<Rightarrow> int \<Rightarrow> error + item list" where
  "fetchDirectoryPage up n =
     (case up n of
        Rejected m \<Rightarrow> Inl (FetchError m)
      | Response ok hs \<Rightarrow> if \<not> ok then Inr [] else Inr (parseCards hs))"

text \<open>The local variables of \<open>crawlBatch\<close> that its loop changes.\<close>

record crawl_state =
  crawledPages :: int
  addedItems :: int
  page :: int
  snap :: snapshot

text \<open>The inner loop \<open>for (const it of items)\<close>.\<close>

fun merge_items :: "item list \<Rightarrow> crawl_state \<Rightarrow> crawl_state" where
  "merge_items [] st = st"
| "merge_items (it # its) st =
     (if \<not> seen (snap st) (name it)
      then merge_items its
             (st\<lparr> snap := (snap st)\<lparr> seen := (seen (snap st))(name it := True),
                                     items := items (snap st) @ [it] \<rparr>,
                  addedItems := addedItems st + 1 \<rparr>)
      else merge_items its st)"

text \<open>\<open>snap.lastPage && page >= snap.lastPage\<close>, and \<open>snap.lastPage && page > snap.lastPage\<close>.\<close>

definition at_lastPage :: "int option \<Rightarrow> int \<Rightarrow> bool" where
  "at_lastPage lp p = (case lp of None \<Rightarrow> False | Some l \<Rightarrow> l \<noteq> 0 \<and> p \<ge> l)"

definition past_lastPage :: "int option \<Rightarrow> int \<Rightarrow> bool" where
  "past_lastPage lp p = (case lp of None \<Rightarrow> False | Some l \<Rightarrow> l \<noteq> 0 \<and> p > l)"

text \<open>
  The \<open>while\<close> loop. A rejected fetch leaves the function with the error; \<open>break\<close> returns
  the state, \<open>continue\<close> and the end of the body go round again.
\<close>

function crawl_loop :: "upstream \<Rightarrow> int \<Rightarrow> int \<Rightarrow> crawl_state \<Rightarrow> error + crawl_state" where
  "crawl_loop up steps hardStop st =
     (if crawledPages st < steps \<and> page st \<le> hardStop then
        (case fetchDirectoryPage up (page st) of
           Inl e \<Rightarrow> Inl e
         | Inr its \<Rightarrow>
             let st1 = st\<lparr> crawledPages := crawledPages st + 1 \<rparr>
             in if its = [] then
                  if at_lastPage (lastPage (snap st1)) (page st1)
                  then Inr (st1\<lparr> snap := (snap st1)\<lparr> complete := True \<rparr>, page := page st1 + 1 \<rparr>)
                  else crawl_loop up steps hardStop (st1\<lparr> page := page st1 + 1 \<rparr>)
                else crawl_loop up steps hardStop
                       ((merge_items its st1)\<lparr> page := page st1 + 1 \<rparr>))
      else Inr st)"
  by pat_completeness auto

lemma merge_items_crawledPages [simp]:
  "crawledPages (merge_items its st) = crawledPages st"
  by (induction its arbitrary: st) simp_all

termination crawl_loop
  by (relation "measure (\<lambda>(up, steps, hardStop, st). nat (steps - crawledPages st))") auto

declare crawl_loop.simps [simp del]

text \<open>The object \<open>crawlBatch\<close> returns.\<close>

record batch_result =
  res_crawledPages :: int
  res_addedItems :: int
  reachedEnd :: bool
  nextCursor :: int
  total :: int
  res_lastPage :: "int option"

definition hardStop_of :: "snapshot \<Rightarrow> int" where
  "hardStop_of sn = min (or_else (lastPage sn) MAX_PAGES_CAP) MAX_PAGES_CAP"

definition crawl_start :: "snapshot \<Rightarrow> crawl_state" where
  "crawl_start sn =
     \<lparr> crawledPages = 0, addedItems = 0, page = max 1 (or_else (Some (cursor sn)) 1), snap = sn \<rparr>"

text \<open>What follows the loop: the second completion test and the fields that are saved.\<close>

definition crawl_finish :: "comparator \<Rightarrow> int \<Rightarrow> crawl_state \<Rightarrow> snapshot" where
  "crawl_finish lc now st =
     (let sn = snap st;
          sn1 = (if past_lastPage (lastPage sn) (page st) then sn\<lparr> complete := True \<rparr> else sn)
      in sn1\<lparr> cursor := page st, items := sortItems lc (items sn1), lastUpdated := now \<rparr>)"

text \<open>
  \<open>crawlBatch(env, steps)\<close>. The two times are what \<open>epoch()\<close> returns inside
  \<open>loadSnapshot\<close> and before the save. The function returns its result, or the error that
  leaves it, and the bucket as it is afterwards.
\<close>

definition crawlBatch ::
  "comparator \<Rightarrow> upstream \<Rightarrow> int \<Rightarrow> int \<Rightarrow> int \<Rightarrow> bucket \<Rightarrow> (error + batch_result) \<times> bucket" where
  "crawlBatch lc up steps t_load t_save b =
     (let (sn, b1) = loadSnapshot lc t_load b;
          hardStop = hardStop_of sn
      in if complete sn then
           (Inr \<lparr> res_crawledPages = 0, res_addedItems = 0, reachedEnd = True,
                  nextCursor = cursor sn, total = int (length (items sn)),
                  res_lastPage = lastPage sn \<rparr>, b1)
         else
           (case crawl_loop up steps hardStop (crawl_start sn) of
              Inl e \<Rightarrow> (Inl e, b1)
            | Inr st \<Rightarrow>
                let sn' = crawl_finish lc t_save st
                in (Inr \<lparr> res_crawledPages = crawledPages st, res_addedItems = addedItems st,
                          reachedEnd = complete sn', nextCursor = cursor sn',
                          total = int (length (items sn')), res_lastPage = lastPage sn' \<rparr>,
                    saveSnapshot sn')))"

text \<open>
  A sequence of \<open>runBatch\<close> calls, each with the pages the upstream serves at that moment,
  its \<open>steps\<close> and its two clock readings; the function returns the bucket after each call.
\<close>

type_synonym batch_call = "upstream \<times> int \<times> int \<times> int"

fun run_batches :: "comparator \<Rightarrow> batch_call list \<Rightarrow> bucket \<Rightarrow> ((error + batch_result) \<times> bucket) list" where
  "run_batches lc [] b = []"
| "run_batches lc ((up, steps, t_load, t_save) # cs) b =
     (let r = crawlBatch lc up steps t_load t_save b in r # run_batches lc cs (snd r))"

section \<open>The scheduler\<close>

text \<open>The changes \<open>scheduled\<close> makes to the snapshot before it saves it.\<close>

definition tick :: "snapshot \<Rightarrow> snapshot" where
  "tick sn =
     (let sn1 = sn\<lparr> cronTicks := or_else (Some (cronTicks sn)) 0 + 1 \<rparr>
      in if cronTicks sn1 \<ge> 1440
         then sn1\<lparr> complete := False, cursor := 1, cronTicks := 0 \<rparr>
         else sn1)"

text \<open>
  \<open>scheduled(event, env, ctx)\<close>, with the three clock readings of its \<open>loadSnapshot\<close> and
  of \<open>crawlBatch\<close>. It returns the outcome of the batch and the bucket.
\<close>

definition scheduled ::
  "comparator \<Rightarrow> upstream \<Rightarrow> int \<Rightarrow> int \<Rightarrow> int \<Rightarrow> bucket \<Rightarrow> (error + batch_result) \<times> bucket" where
  "scheduled lc up t0 t_load t_save b =
     (let (sn, b1) = loadSnapshot lc t0 b;
          b2 = saveSnapshot (tick sn)
      in crawlBatch lc up BATCH_PAGES_DEFAULT t_load t_save b2)"

section \<open>The routes\<close>

text \<open>
  \<open>clampInt\<close> on what \<open>Number.parseInt(v || "", 10)\<close> gives: \<open>None\<close> is \<open>NaN\<close>. The
  fallback is a number here (the routes modelled below pass one).
\<close>

definition clampInt :: "int option \<Rightarrow> int \<Rightarrow> int \<Rightarrow> int \<Rightarrow> int" where
  "clampInt v lo hi fallback = (case v of Some n \<Rightarrow> min (max n lo) hi | None \<Rightarrow> fallback)"

text \<open>\<open>xs.slice(start, end)\<close> for \<open>0 \<le> start \<le> end\<close>.\<close>

definition slice :: "'a list \<Rightarrow> int \<Rightarrow> int \<Rightarrow> 'a list" where
  "slice xs start stop = take (nat (stop - start)) (drop (nat start) xs)"

text \<open>\<open>String.prototype.trim\<close>, on the ASCII white space.\<close>

definition is_space :: "char \<Rightarrow> bool" where
  "is_space c \<longleftrightarrow> c \<in> set [CHR 0x20, CHR 0x09, CHR 0x0A, CHR 0x0B, CHR 0x0C, CHR 0x0D]"

definition trim :: "string \<Rightarrow> string" where
  "trim s = rev (dropWhile is_space (rev (dropWhile is_space s)))"

text \<open>
  \<open>GET /v1/images\<close>: the parameters are the parsed \<open>page\<close> and \<open>size\<close>; the reply is the
  \<open>items\<close> array.
\<close>

definition images_route ::
  "comparator \<Rightarrow> int \<Rightarrow> int option \<Rightarrow> int option \<Rightarrow> bucket \<Rightarrow> item list \<times> bucket" where
  "images_route lc now pg sz b =
     (let p = clampInt pg 1 1000000000 1;
          n = clampInt sz 1 1000 200;
          (sn, b1) = loadSnapshot lc now b;
          itemsSorted = sortItems lc (items sn);
          start = (p - 1) * n
      in (slice itemsSorted start (start + n), b1))"

text \<open>
  \<open>GET /v1/search\<close>: \<open>q\<close> is \<open>searchParams.get("q")\<close>, \<open>None\<close> when the parameter is
  missing.
\<close>

definition search_route ::
  "comparator \<Rightarrow> int \<Rightarrow> string option \<Rightarrow> int option \<Rightarrow> int option \<Rightarrow> bucket \<Rightarrow> item list \<times> bucket" where
  "search_route lc now q pg sz b =
     (let q' = trim (toLowerCase (case q of None \<Rightarrow> [] | Some s \<Rightarrow> s))
      in if q' = [] then ([], b)
         else
           let p = clampInt pg 1 1000000000 1;
               n = clampInt sz 1 200 50;
               (sn, b1) = loadSnapshot lc now b;
               matches = filter (\<lambda>i. matchSlug (toLowerCase (name i)) q') (items sn);
               itemsSorted = sortItems lc matches;
               start = (p - 1) * n
           in (slice itemsSorted start (start + n), b1))"

text \<open>The admin routes answer a request of which the model keeps the method and the
  \<open>x-admin-key\<close> header; \<open>ADMIN_KEY\<close> is the secret of the environment.\<close>

record request =
  http_method :: string
  admin_key :: "string option"

definition isAdmin :: "request \<Rightarrow> string option \<Rightarrow> bool" where
  "isAdmin req ADMIN_KEY =
     (case (admin_key req, ADMIN_KEY) of
        (Some k, Some a) \<Rightarrow> k \<noteq> [] \<and> a \<noteq> [] \<and> k = a
      | _ \<Rightarrow> False)"

text \<open>The replies of the admin routes: an error with its status, or the success body.\<close>

datatype reply =
    Error_reply string int
  | Restart_reply int bool "int option"
  | Repair_reply int

text \<open>\<open>POST /admin/restart-crawl\<close>.\<close>

definition restart_crawl_route ::
  "comparator \<Rightarrow> int \<Rightarrow> request \<Rightarrow> string option \<Rightarrow> bucket \<Rightarrow> reply \<times> bucket" where
  "restart_crawl_route lc now req ADMIN_KEY b =
     (if http_method req \<noteq> ''POST'' then (Error_reply ''use POST'' 405, b)
      else if \<not> isAdmin req ADMIN_KEY then (Error_reply ''forbidden'' 403, b)
      else
        let (sn, b1) = loadSnapshot lc now b;
            sn' = sn\<lparr> cursor := 1, complete := False \<rparr>
        in (Restart_reply (cursor sn') (complete sn') (lastPage sn'), saveSnapshot sn'))"

text \<open>
  \<open>POST /admin/repair\<close> calls \<open>repairSnapshot(snap)\<close>. worker.js, the only module of the
  worker, declares no \<open>repairSnapshot\<close> (no function, no import, no global of that name),
  so evaluating the call raises \<open>ReferenceError: repairSnapshot is not defined\<close>.
\<close>

definition repairSnapshot :: "snapshot \<Rightarrow> error + snapshot" where
  "repairSnapshot sn = Inl (ReferenceError ''repairSnapshot is not defined'')"

text \<open>\<open>e.message\<close> of the error the handler's \<open>catch\<close> receives.\<close>

fun message :: "error \<Rightarrow> string" where
  "message (ReferenceError m) = m"
| "message (FetchError m) = m"

definition repair_route ::
  "comparator \<Rightarrow> int \<Rightarrow> request \<Rightarrow> string option \<Rightarrow> bucket \<Rightarrow> reply \<times> bucket" where
  "repair_route lc now req ADMIN_KEY b =
     (if http_method req \<noteq> ''POST'' then (Error_reply ''use POST'' 405, b)
      else if \<not> isAdmin req ADMIN_KEY then (Error_reply ''forbidden'' 403, b)
      else
        let (sn, b1) = loadSnapshot lc now b
        in case repairSnapshot sn of
             Inl e \<Rightarrow> (Error_reply (message e) 500, b1)
           | Inr repaired \<Rightarrow>
               let repaired' = repaired\<lparr> items := sortItems lc (items repaired) \<rparr>
               in (Repair_reply (int (length (items repaired'))), saveSnapshot repaired'))"

section \<open>Notions used by the statements\<close>

text \<open>
  The cursor of the bucket: \<open>snap.cursor\<close> as \<open>loadSnapshot\<close> returns it (1 for an empty
  bucket and for a stored cursor that is missing or 0).
\<close>

definition cursor_of :: "bucket \<Rightarrow> int" where
  "cursor_of b = (case b of None \<Rightarrow> 1 | Some s \<Rightarrow> or_else (s_cursor s) 1)"

text \<open>The hard stop is not beyond a known last page.\<close>

definition capped :: "int \<Rightarrow> int option \<Rightarrow> bool" where
  "capped hardStop lp = (case lp of None \<Rightarrow> True | Some l \<Rightarrow> l = 0 \<or> hardStop \<le> l)"

text \<open>A comparator that is a total preorder, and a list of items in its order.\<close>

definition consistent :: "comparator \<Rightarrow> bool" where
  "consistent lc \<longleftrightarrow>
     (\<forall>a b. lc a b < 0 \<or> lc b a \<le> 0) \<and>
     (\<forall>a b c. lc a b \<le> 0 \<and> lc b c \<le> 0 \<longrightarrow> lc a c \<le> 0)"

definition ordered_by :: "comparator \<Rightarrow> item list \<Rightarrow> bool" where
  "ordered_by lc xs = sorted_wrt (\<lambda>a b. lc (name a) (name b) \<le> 0) xs"

text \<open>The items have distinct names and the index holds each of them.\<close>

definition indexed :: "item list \<Rightarrow> (string \<Rightarrow> bool) \<Rightarrow> bool" where
  "indexed xs sn \<longleftrightarrow> distinct (map name xs) \<and> (\<forall>x\<in>set xs. sn (name x))"

section \<open>Inputs for the examples\<close>

text \<open>
  One comparator to run the examples with: the order of the code units. Every theorem
  below holds for every comparator.
\<close>

definition code_unit_compare :: comparator where
  "code_unit_compare a b =
     (if a = b then 0
      else if lexordp (\<lambda>x y. (of_char x :: nat) < of_char y) a b then - 1 else 1)"

definition admin_post :: request where
  "admin_post = \<lparr> http_method = ''POST'', admin_key = Some ''secret'' \<rparr>"

text \<open>A bucket as the worker writes it, with the three items of the search example.\<close>

definition node_bucket :: bucket where
  "node_bucket =
     Some \<lparr> s_items = Some (map (to_raw \<circ> mk_item) [''node'', ''nodejs'', ''gonode'']),
            s_cursor = Some 2, s_lastPage = None, s_complete = Some False,
            s_lastUpdated = Some 1700000000, s_cronTicks = Some 0 \<rparr>"

text \<open>A finished crawl: \<open>lastPage\<close> is 2 and the cursor has passed it.\<close>

definition finished_snapshot :: stored where
  "finished_snapshot =
     \<lparr> s_items = Some (map (to_raw \<circ> mk_item) [''nginx'', ''node'']),
       s_cursor = Some 3, s_lastPage = Some 2, s_complete = Some True,
       s_lastUpdated = Some 1700000000, s_cronTicks = Some 7 \<rparr>"

text \<open>An upstream whose page 2 is rejected, and one whose page 2 answers with an error
  status; the other pages list nginx.\<close>

definition outage :: upstream where
  "outage n =
     (if n = 2 then Rejected ''Network connection lost.''
      else Response True [''/directory/image/nginx''])"

definition flaky :: upstream where
  "flaky n = (if n = 2 then Response False [] else Response True [''/directory/image/nginx''])"

text \<open>The finished crawl at the last tick of the day.\<close>

definition day_end :: stored where
  "day_end = finished_snapshot\<lparr> s_cronTicks := Some 1439 \<rparr>"

text \<open>An upstream whose page 1 lists one image with plus signs in its name.\<close>

definition plus_page :: upstream where
  "plus_page n =
     (if n = 1 then Response True [''/directory/image/libstdc++-dev''] else Response True [])"

definition empty_snapshot :: stored where
  "empty_snapshot =
     \<lparr> s_items = Some [], s_cursor = Some 1, s_lastPage = None, s_complete = Some False,
       s_lastUpdated = Some 1700000000, s_cronTicks = Some 0 \<rparr>"

text \<open>A blob written by hand, with one item that has a name and no URL.\<close>

definition plus_snapshot :: stored where
  "plus_snapshot =
     empty_snapshot\<lparr> s_items := Some [\<lparr> raw_name = Some ''libstdc++'', raw_url = None \<rparr>] \<rparr>"

text \<open>An upstream whose pages list an image with the name of an inherited property.\<close>

definition constructor_page :: upstream where
  "constructor_page n = Response True [''/directory/image/constructor'']"

section \<open>Loading and sorting\<close>

lemma loadSnapshot_Some [simp]: "loadSnapshot lc now (Some s) = (repair lc now s, Some s)"
  by (simp add: loadSnapshot_def)

lemma repair_cursor [simp]: "cursor (repair lc now s) = or_else (s_cursor s) 1"
  by (simp add: repair_def split: prod.splits)

lemma repair_complete [simp]:
  "complete (repair lc now s) = (case s_complete s of Some b \<Rightarrow> b | None \<Rightarrow> False)"
  by (simp add: repair_def split: prod.splits)

lemma repair_lastPage [simp]: "lastPage (repair lc now s) = s_lastPage s"
  by (simp add: repair_def split: prod.splits)

lemma repair_cronTicks [simp]: "cronTicks (repair lc now s) = or_else (s_cronTicks s) 0"
  by (simp add: repair_def split: prod.splits)

lemma repair_lastUpdated [simp]:
  "lastUpdated (repair lc now s) = or_else (s_lastUpdated s) now"
  by (simp add: repair_def split: prod.splits)

lemma repair_items:
  "items (repair lc now s) =
     sortItems lc (fst (repair_loop (case s_items s of Some xs \<Rightarrow> xs | None \<Rightarrow> []) ([], \<lambda>k. False)))"
  by (simp add: repair_def split: prod.splits)

lemma set_insert_item [simp]: "set (insert_item lc x ys) = insert x (set ys)"
  by (induction ys) auto

lemma length_insert_item [simp]: "length (insert_item lc x ys) = Suc (length ys)"
  by (induction ys) auto

lemma set_foldl_insert_item:
  "set (foldl (\<lambda>acc x. insert_item lc x acc) acc xs) = set acc \<union> set xs"
  by (induction xs arbitrary: acc) auto

lemma length_foldl_insert_item:
  "length (foldl (\<lambda>acc x. insert_item lc x acc) acc xs) = length acc + length xs"
  by (induction xs arbitrary: acc) auto

lemma set_sortItems [simp]: "set (sortItems lc xs) = set xs"
  by (simp add: sortItems_def set_foldl_insert_item)

lemma length_sortItems [simp]: "length (sortItems lc xs) = length xs"
  by (simp add: sortItems_def length_foldl_insert_item)

text \<open>
  The order of \<open>sortItems\<close> is the order of the comparator it is given: for a comparator
  that is a total preorder the result is in that order, and so is every page of
  \<open>GET /v1/images\<close>, whatever the order of the stored items.
\<close>

lemma ordered_by_insert_item:
  assumes "consistent lc" "ordered_by lc ys"
  shows "ordered_by lc (insert_item lc x ys)"
  using assms(2)
proof (induction ys)
  case Nil
  then show ?case by (simp add: ordered_by_def)
next
  case (Cons y ys)
  have tot: "\<And>a b. \<not> lc a b < 0 \<Longrightarrow> lc b a \<le> 0"
    and tr: "\<And>a b c. lc a b \<le> 0 \<Longrightarrow> lc b c \<le> 0 \<Longrightarrow> lc a c \<le> 0"
    using assms(1) unfolding consistent_def by blast+
  show ?case
  proof (cases "lc (name x) (name y) < 0")
    case True
    then have "lc (name x) (name y) \<le> 0" by simp
    then have "\<forall>z\<in>set ys. lc (name x) (name z) \<le> 0"
      using Cons.prems tr unfolding ordered_by_def by auto
    then show ?thesis using True Cons.prems \<open>lc (name x) (name y) \<le> 0\<close>
      by (simp add: ordered_by_def)
  next
    case False
    then have yx: "lc (name y) (name x) \<le> 0" by (rule tot)
    have "ordered_by lc (insert_item lc x ys)"
      using Cons unfolding ordered_by_def by simp
    then show ?thesis using False yx Cons.prems
      by (auto simp: ordered_by_def)
  qed
qed

lemma ordered_by_foldl:
  assumes "consistent lc"
  shows "ordered_by lc acc \<Longrightarrow> ordered_by lc (foldl (\<lambda>acc x. insert_item lc x acc) acc xs)"
  by (induction xs arbitrary: acc) (simp_all add: ordered_by_insert_item[OF assms])

lemma sortItems_ordered: "consistent lc \<Longrightarrow> ordered_by lc (sortItems lc xs)"
  unfolding sortItems_def by (rule ordered_by_foldl) (simp_all add: ordered_by_def)

lemma names_insert_item:
  "distinct (map name (insert_item lc x ys)) \<longleftrightarrow>
     name x \<notin> name ` set ys \<and> distinct (map name ys)"
  by (induction ys) auto

lemma names_foldl_insert_item:
  "distinct (map name (foldl (\<lambda>acc x. insert_item lc x acc) acc xs)) \<longleftrightarrow>
     distinct (map name (acc @ xs))"
proof (induction xs arbitrary: acc)
  case Nil
  show ?case by simp
next
  case (Cons x xs)
  show ?case by (simp add: Cons.IH names_insert_item) auto
qed

lemma distinct_names_sortItems [simp]:
  "distinct (map name (sortItems lc xs)) \<longleftrightarrow> distinct (map name xs)"
  by (simp add: sortItems_def names_foldl_insert_item)

lemma images_route_ordered:
  assumes "consistent lc"
  shows "ordered_by lc (fst (images_route lc now pg sz b))"
proof -
  obtain sn b1 where l: "loadSnapshot lc now b = (sn, b1)"
    by (cases "loadSnapshot lc now b")
  have "ordered_by lc (sortItems lc (items sn))"
    by (rule sortItems_ordered[OF assms])
  then show ?thesis
    by (simp add: images_route_def l slice_def ordered_by_def Let_def sorted_wrt_take
        sorted_wrt_drop)
qed

section \<open>The capture group\<close>

text \<open>
  The capture group consists of characters of the input that are in its class, so it has
  no \<open>%\<close> and \<open>decodeURIComponent\<close> leaves it as it is.
\<close>

lemma backtrack_subset: "backtrack g rest = Some m \<Longrightarrow> set m \<subseteq> set g"
  by (induction g arbitrary: rest) (auto split: if_splits)

lemma match_here_subset: "match_here s = Some m \<Longrightarrow> set m \<subseteq> set s"
proof -
  assume a: "match_here s = Some m"
  then obtain c cs where d: "drop (length DIR_IMAGE) s = c # cs"
    and b: "backtrack (rev (c # takeWhile is_group_char cs)) (dropWhile is_group_char cs) = Some m"
    by (auto simp: match_here_def split: if_splits list.splits)
  have "set m \<subseteq> set (c # takeWhile is_group_char cs)"
    using backtrack_subset[OF b] by simp
  also have "\<dots> \<subseteq> set (c # cs)"
    by (auto dest: set_takeWhileD)
  also have "\<dots> \<subseteq> set s"
    using set_drop_subset[of "length DIR_IMAGE" s] d by simp
  finally show ?thesis .
qed

lemma match_here_group: "match_here s = Some m \<Longrightarrow> list_all is_group_char m"
proof -
  assume a: "match_here s = Some m"
  then obtain c cs where c: "is_alnum c"
    and b: "backtrack (rev (c # takeWhile is_group_char cs)) (dropWhile is_group_char cs) = Some m"
    by (auto simp: match_here_def split: if_splits list.splits)
  have "set m \<subseteq> set (c # takeWhile is_group_char cs)"
    using backtrack_subset[OF b] by simp
  moreover have "\<forall>x\<in>set (c # takeWhile is_group_char cs). is_group_char x"
    using c by (auto simp: is_group_char_def dest: set_takeWhileD)
  ultimately show ?thesis by (auto simp: list_all_iff)
qed

lemma slug_exec_subset: "slug_exec s = Some m \<Longrightarrow> set m \<subseteq> set s"
proof (induction s)
  case Nil
  then show ?case by simp
next
  case (Cons c cs)
  show ?case
  proof (cases "match_here (c # cs)")
    case None
    then show ?thesis using Cons by auto
  next
    case (Some g)
    then show ?thesis using Cons.prems match_here_subset[of "c # cs" g] by simp
  qed
qed

lemma slug_exec_group: "slug_exec s = Some m \<Longrightarrow> list_all is_group_char m"
proof (induction s)
  case Nil
  then show ?case by simp
next
  case (Cons c cs)
  show ?case
  proof (cases "match_here (c # cs)")
    case None
    then show ?thesis using Cons by auto
  next
    case (Some g)
    then show ?thesis using Cons.prems match_here_group[of "c # cs" g] by simp
  qed
qed

lemma capture_has_no_percent: "slug_exec s = Some m \<Longrightarrow> CHR ''%'' \<notin> set m"
proof
  assume "slug_exec s = Some m" "CHR ''%'' \<in> set m"
  then have "is_group_char CHR ''%''"
    using slug_exec_group[of s m] by (auto simp: list_all_iff)
  then show False
    by (simp add: is_group_char_def is_alnum_def lower_chars_def upper_chars_def digit_chars_def)
qed

lemma lower_char_plus: "lower_char c = CHR ''+'' \<longleftrightarrow> c = CHR ''+''"
  by (auto simp: lower_char_def upper_chars_def lower_chars_def split: if_splits)

lemma encode_char_no_plus: "CHR ''+'' \<notin> set (encode_char c)"
proof (cases "is_unreserved c")
  case True
  then have "c \<noteq> CHR ''+''"
    by (auto simp: is_unreserved_def is_alnum_def lower_chars_def upper_chars_def digit_chars_def)
  then show ?thesis using True by (simp add: encode_char_def)
next
  case False
  have "\<And>n. n < 16 \<Longrightarrow> ''0123456789ABCDEF'' ! n \<noteq> CHR ''+''"
  proof -
    fix n :: nat assume "n < 16"
    then have "''0123456789ABCDEF'' ! n \<in> set ''0123456789ABCDEF''"
      by (intro nth_mem) simp
    then show "''0123456789ABCDEF'' ! n \<noteq> CHR ''+''" by auto
  qed
  then have h: "\<And>n. CHR ''+'' \<noteq> hex_digit n"
    by (simp add: hex_digit_def eq_commute)
  show ?thesis using False h[of "of_char c div 16"] h[of "of_char c mod 16"]
    by (simp add: encode_char_def)
qed

lemma item_url_no_plus: "CHR ''+'' \<notin> set (item_url c)"
  using encode_char_no_plus
  by (auto simp: item_url_def ORIGIN_def encodeURIComponent_def)

text \<open>
  The URL the worker writes for a slug with a plus sign never gives the slug back: the
  plus sign is written \<open>%2B\<close>, and the capture group takes its characters from the URL.
\<close>

lemma plus_is_lost:
  assumes "CHR ''+'' \<in> set c"
  shows "extractSlugFromUrl (Some (item_url c)) \<noteq> Some c"
proof
  assume e: "extractSlugFromUrl (Some (item_url c)) = Some c"
  then obtain m where m: "slug_exec (item_url c) = Some m" "c = toLowerCase m"
    by (auto simp: extractSlugFromUrl_def Let_def split: if_splits option.splits)
  have "CHR ''+'' \<notin> set m"
    using slug_exec_subset[OF m(1)] item_url_no_plus[of c] by auto
  have "CHR ''+'' \<notin> set (toLowerCase m)"
  proof
    assume "CHR ''+'' \<in> set (toLowerCase m)"
    then obtain x where x: "x \<in> set m" "lower_char x = CHR ''+''"
      by (auto simp: toLowerCase_def)
    from x(2) have "x = CHR ''+''" by (simp only: lower_char_plus)
    with x(1) \<open>CHR ''+'' \<notin> set m\<close> show False by simp
  qed
  then show False using assms m(2) by simp
qed

section \<open>A finished crawl\<close>

lemma crawlBatch_complete:
  assumes "s_complete s = Some True"
  shows "crawlBatch lc up steps t_load t_save (Some s) =
     (Inr \<lparr> res_crawledPages = 0, res_addedItems = 0, reachedEnd = True,
            nextCursor = or_else (s_cursor s) 1,
            total = int (length (items (repair lc t_load s))),
            res_lastPage = s_lastPage s \<rparr>, Some s)"
  using assms by (simp add: crawlBatch_def)

lemma run_batches_complete:
  assumes "s_complete s = Some True"
  shows "list_all (\<lambda>(r, b'). b' = Some s \<and>
            (\<exists>x. r = Inr x \<and> res_crawledPages x = 0 \<and> res_addedItems x = 0 \<and> reachedEnd x \<and>
                 nextCursor x = or_else (s_cursor s) 1))
          (run_batches lc calls (Some s))"
proof (induction calls)
  case Nil
  show ?case by simp
next
  case (Cons c calls)
  obtain up steps t_load t_save where c: "c = (up, steps, t_load, t_save)"
    by (cases c)
  show ?case using Cons assms by (simp add: c crawlBatch_complete)
qed

lemma restart_resets:
  assumes "http_method req = ''POST''" "isAdmin req k"
  shows "snd (restart_crawl_route lc now req k (Some s)) =
     Some ((to_stored (repair lc now s))\<lparr> s_cursor := Some 1, s_complete := Some False \<rparr>)"
  using assms by (simp add: restart_crawl_route_def saveSnapshot_def to_stored_def)

text \<open>
  C1. When the stored snapshot has \<open>complete = true\<close>, \<open>crawlBatch\<close> returns
  \<open>crawledPages = 0\<close>, \<open>addedItems = 0\<close>, \<open>reachedEnd = true\<close> and the cursor of the
  snapshot as loaded (the stored cursor, or 1 when it is missing or 0), whatever \<open>steps\<close>
  and the upstream are, and the bucket is left as it was. So every call of a sequence
  of calls is such a no-op. An authorized restart-crawl stores \<open>complete = false\<close> and
  \<open>cursor = 1\<close>, which ends it.
\<close>

theorem completed_crawl_is_noop:
  assumes "s_complete s = Some True"
  shows "crawlBatch lc up steps t_load t_save (Some s) =
           (Inr \<lparr> res_crawledPages = 0, res_addedItems = 0, reachedEnd = True,
                  nextCursor = or_else (s_cursor s) 1,
                  total = int (length (items (repair lc t_load s))),
                  res_lastPage = s_lastPage s \<rparr>, Some s)
       \<and> list_all (\<lambda>(r, b'). b' = Some s \<and>
            (\<exists>x. r = Inr x \<and> res_crawledPages x = 0 \<and> res_addedItems x = 0 \<and> reachedEnd x \<and>
                 nextCursor x = or_else (s_cursor s) 1))
          (run_batches lc calls (Some s))
       \<and> (http_method req = ''POST'' \<and> isAdmin req k \<longrightarrow>
            (\<exists>s'. snd (restart_crawl_route lc now req k (Some s)) = Some s' \<and>
                  s_complete s' = Some False \<and> s_cursor s' = Some 1))"
  using crawlBatch_complete[OF assms] run_batches_complete[OF assms]
  by (simp add: restart_resets)

theorem completed_crawl_is_noop_witness:
  "s_complete finished_snapshot = Some True
   \<and> crawlBatch code_unit_compare outage 5 1700000100 1700000101 (Some finished_snapshot) =
       (Inr \<lparr> res_crawledPages = 0, res_addedItems = 0, reachedEnd = True, nextCursor = 3,
              total = 2, res_lastPage = Some 2 \<rparr>, Some finished_snapshot)
   \<and> http_method admin_post = ''POST'' \<and> isAdmin admin_post (Some ''secret'')
   \<and> s_complete (the (snd (restart_crawl_route code_unit_compare 1700000200 admin_post
                              (Some ''secret'') (Some finished_snapshot)))) = Some False"
proof -
  have c: "s_complete finished_snapshot = Some True"
    by (simp add: finished_snapshot_def)
  have a: "http_method admin_post = ''POST'' \<and> isAdmin admin_post (Some ''secret'')"
    by (simp add: admin_post_def isAdmin_def)
  have l: "length (items (repair code_unit_compare 1700000100 finished_snapshot)) = 2"
    by (simp add: repair_items) (code_simp)
  have "or_else (s_cursor finished_snapshot) 1 = 3" "s_lastPage finished_snapshot = Some 2"
    by (simp_all add: finished_snapshot_def or_else_def)
  with c a l show ?thesis
    using completed_crawl_is_noop
      [OF c, of code_unit_compare outage 5 1700000100 1700000101 "[]" admin_post
         "Some ''secret''" 1700000200]
    by auto
qed

section \<open>\<open>POST /admin/repair\<close>\<close>

text \<open>
  C3. An authorized \<open>POST /admin/repair\<close> loads the snapshot and then fails: the reply is
  the handler's error reply with status 500 and the message of the \<open>ReferenceError\<close>, and
  nothing is persisted beyond what \<open>loadSnapshot\<close> itself writes. The claim says that the
  route repairs, sorts, persists and returns ok with the number of items.
\<close>

theorem repair_route_raises:
  "repair_route lc now admin_post (Some ''secret'') b =
     (Error_reply ''repairSnapshot is not defined'' 500, snd (loadSnapshot lc now b))"
  by (simp add: repair_route_def repairSnapshot_def admin_post_def isAdmin_def
      split: prod.splits)

section \<open>Wildcard search\<close>

lemma startsWith_star_iff: "startsWith_star q \<longleftrightarrow> (\<exists>r. q = CHR ''*'' # r)"
  by (cases q) (auto simp: startsWith_star_def)

lemma endsWith_star_iff: "endsWith_star q \<longleftrightarrow> (q \<noteq> [] \<and> last q = CHR ''*'')"
  by (cases q rule: rev_cases) (auto simp: endsWith_star_def suffix_def)

lemma matchSlug_forms:
  assumes "CHR ''*'' \<notin> set term"
  shows "matchSlug slug term \<longleftrightarrow> slug = term"
    and "matchSlug slug (term @ ''*'') \<longleftrightarrow> prefix term slug"
    and "matchSlug slug (''*'' @ term) \<longleftrightarrow> suffix term slug"
    and "matchSlug slug (''*'' @ term @ ''*'') \<longleftrightarrow> sublist term slug"
proof -
  have hd: "term \<noteq> [] \<Longrightarrow> hd term \<noteq> CHR ''*''"
    and lst: "term \<noteq> [] \<Longrightarrow> last term \<noteq> CHR ''*''"
    using assms by (auto dest: hd_in_set last_in_set)
  show "matchSlug slug term \<longleftrightarrow> slug = term"
    using hd lst
    by (cases "term") (auto simp: matchSlug_def startsWith_star_iff endsWith_star_iff)
  show "matchSlug slug (term @ ''*'') \<longleftrightarrow> prefix term slug"
    using hd
    by (cases "term")
      (auto simp: matchSlug_def startsWith_star_iff endsWith_star_iff butlast_append)
  show "matchSlug slug (''*'' @ term) \<longleftrightarrow> suffix term slug"
    using lst
    by (cases "term") (auto simp: matchSlug_def startsWith_star_iff endsWith_star_iff)
  show "matchSlug slug (''*'' @ term @ ''*'') \<longleftrightarrow> sublist term slug"
    by (simp add: matchSlug_def startsWith_star_iff endsWith_star_iff butlast_append)
qed

lemma search_route_names:
  assumes "trim (toLowerCase q) \<noteq> []" "length (items (fst (loadSnapshot lc now b))) \<le> 50"
  shows "set (fst (search_route lc now (Some q) None None b)) =
     {i \<in> set (items (fst (loadSnapshot lc now b))).
        matchSlug (toLowerCase (name i)) (trim (toLowerCase q))}"
proof -
  obtain sn b1 where l: "loadSnapshot lc now b = (sn, b1)"
    by (cases "loadSnapshot lc now b")
  have "length (filter (\<lambda>i. matchSlug (toLowerCase (name i)) (trim (toLowerCase q))) (items sn))
          \<le> 50"
    using assms(2) l by (simp add: le_trans[OF length_filter_le])
  then show ?thesis using assms(1) l
    by (simp add: search_route_def slice_def clampInt_def Let_def)
qed

lemma node_minimal:
  "fst (repair_loop (map (to_raw \<circ> mk_item) [''node'', ''nodejs'', ''gonode'']) ([], \<lambda>k. False)) =
     map mk_item [''node'', ''nodejs'', ''gonode'']"
  by code_simp

lemma node_items:
  "set (items (fst (loadSnapshot lc now node_bucket))) =
     set (map mk_item [''node'', ''nodejs'', ''gonode''])"
  and node_length: "length (items (fst (loadSnapshot lc now node_bucket))) = 3"
  by (simp_all add: node_bucket_def repair_items node_minimal del: map_map list.map)

lemma node_queries:
  "trim (toLowerCase ''node'') = ''node''"
  "trim (toLowerCase ''node*'') = ''node*''"
  "trim (toLowerCase ''*node'') = ''*node''"
  "trim (toLowerCase ''*node*'') = ''*node*''"
  by code_simp+

lemma node_search:
  assumes "trim (toLowerCase q) = q'" "q' \<noteq> []"
  shows "name ` set (fst (search_route lc now (Some q) None None node_bucket)) =
     set (map name (filter (\<lambda>i. matchSlug (toLowerCase (name i)) q')
            (map mk_item [''node'', ''nodejs'', ''gonode''])))"
proof -
  have "set (fst (search_route lc now (Some q) None None node_bucket)) =
     {i \<in> set (items (fst (loadSnapshot lc now node_bucket))).
        matchSlug (toLowerCase (name i)) q'}"
    using search_route_names[of q lc now node_bucket] assms by (simp add: node_length)
  then show ?thesis by (simp only: node_items set_map set_filter)
qed

lemma node_matches:
  "map name (filter (\<lambda>i. matchSlug (toLowerCase (name i)) ''node'')
     (map mk_item [''node'', ''nodejs'', ''gonode''])) = [''node'']"
  "map name (filter (\<lambda>i. matchSlug (toLowerCase (name i)) ''node*'')
     (map mk_item [''node'', ''nodejs'', ''gonode''])) = [''node'', ''nodejs'']"
  "map name (filter (\<lambda>i. matchSlug (toLowerCase (name i)) ''*node'')
     (map mk_item [''node'', ''nodejs'', ''gonode''])) = [''node'', ''gonode'']"
  "map name (filter (\<lambda>i. matchSlug (toLowerCase (name i)) ''*node*'')
     (map mk_item [''node'', ''nodejs'', ''gonode''])) = [''node'', ''nodejs'', ''gonode'']"
  by code_simp+

lemma node_search_results:
  "name ` set (fst (search_route lc now (Some ''node'') None None node_bucket)) = {''node''}"
  "name ` set (fst (search_route lc now (Some ''node*'') None None node_bucket)) =
     {''node'', ''nodejs''}"
  "name ` set (fst (search_route lc now (Some ''*node'') None None node_bucket)) =
     {''node'', ''gonode''}"
  "name ` set (fst (search_route lc now (Some ''*node*'') None None node_bucket)) =
     {''node'', ''nodejs'', ''gonode''}"
  by (simp_all add: node_search[OF node_queries(1)] node_search[OF node_queries(2)]
      node_search[OF node_queries(3)] node_search[OF node_queries(4)] node_matches
      del: list.map filter.simps)

text \<open>
  C7. For a term without \<open>*\<close>, \<open>matchSlug\<close> with the query \<open>term\<close> holds of the equal name
  only, with \<open>term*\<close> of the names that start with the term, with \<open>*term\<close> of the names
  that end with it, and with \<open>*term*\<close> of the names that contain it. Over a snapshot with
  the items node, nodejs and gonode, \<open>GET /v1/search\<close> returns node for \<open>node\<close>, node and
  nodejs for \<open>node*\<close>, node and gonode for \<open>*node\<close>, and all three for \<open>*node*\<close>.
\<close>

theorem wildcard_forms:
  assumes "CHR ''*'' \<notin> set term"
  shows "(matchSlug slug term \<longleftrightarrow> slug = term)
       \<and> (matchSlug slug (term @ ''*'') \<longleftrightarrow> prefix term slug)
       \<and> (matchSlug slug (''*'' @ term) \<longleftrightarrow> suffix term slug)
       \<and> (matchSlug slug (''*'' @ term @ ''*'') \<longleftrightarrow> sublist term slug)
       \<and> name ` set (fst (search_route lc now (Some ''node'') None None node_bucket)) = {''node''}
       \<and> name ` set (fst (search_route lc now (Some ''node*'') None None node_bucket)) =
           {''node'', ''nodejs''}
       \<and> name ` set (fst (search_route lc now (Some ''*node'') None None node_bucket)) =
           {''node'', ''gonode''}
       \<and> name ` set (fst (search_route lc now (Some ''*node*'') None None node_bucket)) =
           {''node'', ''nodejs'', ''gonode''}"
proof -
  note forms = matchSlug_forms[OF assms, of slug]
  show ?thesis
    by (intro conjI forms node_search_results)
qed

theorem wildcard_forms_witness:
  "CHR ''*'' \<notin> set ''node''
   \<and> matchSlug ''node'' ''node'' \<and> \<not> matchSlug ''nodejs'' ''node''
   \<and> matchSlug ''nodejs'' ''node*'' \<and> \<not> matchSlug ''gonode'' ''node*''
   \<and> matchSlug ''gonode'' ''*node'' \<and> \<not> matchSlug ''nodejs'' ''*node''
   \<and> matchSlug ''gonode'' ''*node*''"
proof -
  have h: "CHR ''*'' \<notin> set ''node''" by simp
  show ?thesis
    using h wildcard_forms[OF h, of "''node''"] wildcard_forms[OF h, of "''nodejs''"]
      wildcard_forms[OF h, of "''gonode''"]
    by (simp add: sublist_code suffix_to_prefix)
qed

text \<open>
  C10. The query \<open>*\<close> matches every name: \<open>GET /v1/search?q=*\<close> filters nothing out and
  returns the first \<open>size\<close> items of the sorted snapshot (50 when \<open>size\<close> is not given).
\<close>

lemma trim_star: "trim (toLowerCase ''*'') = ''*''"
  by code_simp

theorem star_matches_every_slug:
  "matchSlug slug ''*''
   \<and> fst (search_route lc now (Some ''*'') None sz b) =
       take (nat (clampInt sz 1 200 50))
         (sortItems lc (items (fst (loadSnapshot lc now b))))"
  by (simp add: search_route_def trim_star matchSlug_def startsWith_star_def
      endsWith_star_def slice_def clampInt_def split: prod.splits)

section \<open>The loop of the crawl\<close>

lemma merge_items_page [simp]: "page (merge_items its st) = page st"
  by (induction its arbitrary: st) simp_all

lemma merge_items_lastPage [simp]: "lastPage (snap (merge_items its st)) = lastPage (snap st)"
  by (induction its arbitrary: st) simp_all

lemma crawl_loop_stop:
  "\<not> (crawledPages st < steps \<and> page st \<le> hardStop) \<Longrightarrow> crawl_loop up steps hardStop st = Inr st"
  by (subst crawl_loop.simps) auto

lemma crawl_loop_rejected:
  "crawledPages st < steps \<Longrightarrow> page st \<le> hardStop \<Longrightarrow> fetchDirectoryPage up (page st) = Inl e \<Longrightarrow>
     crawl_loop up steps hardStop st = Inl e"
  by (subst crawl_loop.simps) auto

lemma crawl_loop_empty_last:
  "crawledPages st < steps \<Longrightarrow> page st \<le> hardStop \<Longrightarrow> fetchDirectoryPage up (page st) = Inr [] \<Longrightarrow>
   at_lastPage (lastPage (snap st)) (page st) \<Longrightarrow>
     crawl_loop up steps hardStop st =
       Inr (st\<lparr> crawledPages := crawledPages st + 1, snap := (snap st)\<lparr> complete := True \<rparr>,
              page := page st + 1 \<rparr>)"
  by (subst crawl_loop.simps) auto

lemma crawl_loop_empty_next:
  "crawledPages st < steps \<Longrightarrow> page st \<le> hardStop \<Longrightarrow> fetchDirectoryPage up (page st) = Inr [] \<Longrightarrow>
   \<not> at_lastPage (lastPage (snap st)) (page st) \<Longrightarrow>
     crawl_loop up steps hardStop st =
       crawl_loop up steps hardStop (st\<lparr> crawledPages := crawledPages st + 1, page := page st + 1 \<rparr>)"
  by (subst crawl_loop.simps) auto

lemma crawl_loop_items:
  "crawledPages st < steps \<Longrightarrow> page st \<le> hardStop \<Longrightarrow> fetchDirectoryPage up (page st) = Inr its \<Longrightarrow>
   its \<noteq> [] \<Longrightarrow>
     crawl_loop up steps hardStop st =
       crawl_loop up steps hardStop
         ((merge_items its (st\<lparr> crawledPages := crawledPages st + 1 \<rparr>))\<lparr> page := page st + 1 \<rparr>)"
  by (subst crawl_loop.simps) auto

text \<open>The cases of one turn of the loop, as an induction rule.\<close>

lemma crawl_loop_cases [case_names stop rejected empty_last empty_next items]:
  assumes "\<And>st. \<not> (crawledPages st < steps \<and> page st \<le> hardStop) \<Longrightarrow> P st"
    and "\<And>st e. crawledPages st < steps \<Longrightarrow> page st \<le> hardStop \<Longrightarrow>
           fetchDirectoryPage up (page st) = Inl e \<Longrightarrow> P st"
    and "\<And>st. crawledPages st < steps \<Longrightarrow> page st \<le> hardStop \<Longrightarrow>
           fetchDirectoryPage up (page st) = Inr [] \<Longrightarrow>
           at_lastPage (lastPage (snap st)) (page st) \<Longrightarrow> P st"
    and "\<And>st. crawledPages st < steps \<Longrightarrow> page st \<le> hardStop \<Longrightarrow>
           fetchDirectoryPage up (page st) = Inr [] \<Longrightarrow>
           \<not> at_lastPage (lastPage (snap st)) (page st) \<Longrightarrow>
           P (st\<lparr> crawledPages := crawledPages st + 1, page := page st + 1 \<rparr>) \<Longrightarrow> P st"
    and "\<And>st its. crawledPages st < steps \<Longrightarrow> page st \<le> hardStop \<Longrightarrow>
           fetchDirectoryPage up (page st) = Inr its \<Longrightarrow> its \<noteq> [] \<Longrightarrow>
           P ((merge_items its (st\<lparr> crawledPages := crawledPages st + 1 \<rparr>))\<lparr> page := page st + 1 \<rparr>)
           \<Longrightarrow> P st"
  shows "P st"
proof (induction "nat (steps - crawledPages st)" arbitrary: st rule: less_induct)
  case less
  show ?case
  proof (cases "crawledPages st < steps \<and> page st \<le> hardStop")
    case False
    then show ?thesis by (rule assms(1))
  next
    case True
    then have c: "crawledPages st < steps" "page st \<le> hardStop" by simp_all
    show ?thesis
    proof (cases "fetchDirectoryPage up (page st)")
      case (Inl e)
      show ?thesis by (rule assms(2)[OF c Inl])
    next
      case (Inr its)
      show ?thesis
      proof (cases "its = []")
        case e: True
        have f: "fetchDirectoryPage up (page st) = Inr []" using Inr e by simp
        show ?thesis
        proof (cases "at_lastPage (lastPage (snap st)) (page st)")
          case True
          show ?thesis by (rule assms(3)[OF c f True])
        next
          case False
          have "P (st\<lparr> crawledPages := crawledPages st + 1, page := page st + 1 \<rparr>)"
            using c(1) by (intro less) simp
          then show ?thesis by (rule assms(4)[OF c f False])
        qed
      next
        case ne: False
        have "P ((merge_items its (st\<lparr> crawledPages := crawledPages st + 1 \<rparr>))\<lparr> page := page st + 1 \<rparr>)"
          using c(1) by (intro less) simp
        then show ?thesis by (rule assms(5)[OF c Inr ne])
      qed
    qed
  qed
qed

lemma crawl_loop_page:
  "crawl_loop up steps hardStop st = Inr st' \<Longrightarrow>
     page st \<le> page st' \<and> lastPage (snap st') = lastPage (snap st)"
proof (induction st rule: crawl_loop_cases[where up = up and steps = steps and hardStop = hardStop])
  case (stop st)
  then show ?case using crawl_loop_stop[of st steps hardStop up] by simp
next
  case (rejected st e)
  then show ?case using crawl_loop_rejected[of st steps hardStop up e] by simp
next
  case (empty_last st)
  then show ?case using crawl_loop_empty_last[of st steps hardStop up] by auto
next
  case (empty_next st)
  then show ?case using crawl_loop_empty_next[of st steps hardStop up] by simp
next
  case (items st its)
  then show ?case using crawl_loop_items[of st steps hardStop up its] by simp
qed

lemma capped_hardStop_of: "capped (hardStop_of sn) (lastPage sn)"
  by (simp add: capped_def hardStop_of_def or_else_def split: option.splits)

lemma fetch_not_rejected:
  "\<not> is_Rejected (up n) \<Longrightarrow> fetchDirectoryPage up n \<noteq> Inl e"
  by (cases "up n") (simp_all add: fetchDirectoryPage_def)

lemma crawl_loop_count:
  assumes "\<forall>n. \<not> is_Rejected (up n)"
  shows "capped hardStop (lastPage (snap st)) \<Longrightarrow>
     \<exists>st'. crawl_loop up steps hardStop st = Inr st' \<and>
       crawledPages st' =
         crawledPages st + max 0 (min (steps - crawledPages st) (hardStop - page st + 1)) \<and>
       page st' = page st + (crawledPages st' - crawledPages st)"
proof (induction st rule: crawl_loop_cases[where up = up and steps = steps and hardStop = hardStop])
  case (stop st)
  then show ?case using crawl_loop_stop[of st steps hardStop up] by auto
next
  case (rejected st e)
  then show ?case using assms fetch_not_rejected[of up "page st" e] by simp
next
  case (empty_last st)
  then have "page st = hardStop"
    by (auto simp: capped_def at_lastPage_def split: option.splits)
  then show ?case using empty_last crawl_loop_empty_last[of st steps hardStop up] by auto
next
  case (empty_next st)
  then show ?case using crawl_loop_empty_next[of st steps hardStop up] by auto
next
  case (items st its)
  then show ?case using crawl_loop_items[of st steps hardStop up its] by auto
qed


lemma cursor_of_loadSnapshot:
  "cursor (fst (loadSnapshot lc now b)) = cursor_of b"
  "cursor_of (snd (loadSnapshot lc now b)) = cursor_of b"
  by (cases b; simp add: cursor_of_def loadSnapshot_def freshSnapshot_def saveSnapshot_def
      to_stored_def or_else_def)+

lemma cursor_of_saveSnapshot:
  "cursor_of (saveSnapshot sn) = or_else (Some (cursor sn)) 1"
  by (simp add: cursor_of_def saveSnapshot_def to_stored_def)

lemma crawl_finish_fields [simp]:
  "cursor (crawl_finish lc now st) = page st"
  "lastPage (crawl_finish lc now st) = lastPage (snap st)"
  "cronTicks (crawl_finish lc now st) = cronTicks (snap st)"
  by (simp_all add: crawl_finish_def Let_def)

lemma crawlBatch_cases:
  obtains (noop) sn b1 where "loadSnapshot lc t_load b = (sn, b1)" "complete sn"
      "crawlBatch lc up steps t_load t_save b =
         (Inr \<lparr> res_crawledPages = 0, res_addedItems = 0, reachedEnd = True,
                nextCursor = cursor sn, total = int (length (items sn)),
                res_lastPage = lastPage sn \<rparr>, b1)"
  | (failed) sn b1 e where "loadSnapshot lc t_load b = (sn, b1)" "\<not> complete sn"
      "crawl_loop up steps (hardStop_of sn) (crawl_start sn) = Inl e"
      "crawlBatch lc up steps t_load t_save b = (Inl e, b1)"
  | (saved) sn b1 st where "loadSnapshot lc t_load b = (sn, b1)" "\<not> complete sn"
      "crawl_loop up steps (hardStop_of sn) (crawl_start sn) = Inr st"
      "crawlBatch lc up steps t_load t_save b =
         (Inr \<lparr> res_crawledPages = crawledPages st, res_addedItems = addedItems st,
                reachedEnd = complete (crawl_finish lc t_save st),
                nextCursor = page st,
                total = int (length (items (crawl_finish lc t_save st))),
                res_lastPage = lastPage (snap st) \<rparr>,
          saveSnapshot (crawl_finish lc t_save st))"
proof -
  obtain sn b1 where l: "loadSnapshot lc t_load b = (sn, b1)"
    by (cases "loadSnapshot lc t_load b")
  show thesis
  proof (cases "complete sn")
    case True
    then show thesis using l by (intro noop[of sn b1]) (simp_all add: crawlBatch_def)
  next
    case False
    show thesis
    proof (cases "crawl_loop up steps (hardStop_of sn) (crawl_start sn)")
      case (Inl e)
      then show thesis using l False by (intro failed[of sn b1 e]) (simp_all add: crawlBatch_def)
    next
      case (Inr st)
      then show thesis using l False
        by (intro saved[of sn b1 st]) (simp_all add: crawlBatch_def Let_def)
    qed
  qed
qed

lemma crawl_start_page: "page (crawl_start sn) = max 1 (or_else (Some (cursor sn)) 1)"
  by (simp add: crawl_start_def)

lemma crawlBatch_cursor:
  assumes "crawlBatch lc up steps t_load t_save b = (r, b')"
  shows "cursor_of b \<le> cursor_of b' \<and> (1 \<le> cursor_of b \<longrightarrow> 1 \<le> cursor_of b')"
proof (cases rule: crawlBatch_cases[of lc t_load b up steps t_save])
  case (noop sn b1)
  then show ?thesis using assms cursor_of_loadSnapshot(2)[of lc t_load b] by simp
next
  case (failed sn b1 e)
  then show ?thesis using assms cursor_of_loadSnapshot(2)[of lc t_load b] by simp
next
  case (saved sn b1 st)
  have "page (crawl_start sn) \<le> page st"
    using crawl_loop_page[OF saved(3)] by simp
  moreover have "cursor sn = cursor_of b"
    using cursor_of_loadSnapshot(1)[of lc t_load b] saved(1) by simp
  ultimately show ?thesis using assms saved(4)
    by (auto simp: cursor_of_saveSnapshot crawl_start_page or_else_def split: if_splits)
qed

lemma crawlBatch_new_cursor:
  assumes "crawlBatch lc up steps t_load t_save b = (Inr r, b')"
    and "\<not> complete (fst (loadSnapshot lc t_load b))"
  shows "cursor_of b' = nextCursor r \<and> max 1 (cursor_of b) \<le> nextCursor r"
proof (cases rule: crawlBatch_cases[of lc t_load b up steps t_save])
  case (noop sn b1)
  then show ?thesis using assms by simp
next
  case (failed sn b1 e)
  then show ?thesis using assms by simp
next
  case (saved sn b1 st)
  have "page (crawl_start sn) \<le> page st"
    using crawl_loop_page[OF saved(3)] by simp
  moreover have "cursor sn = cursor_of b"
    using cursor_of_loadSnapshot(1)[of lc t_load b] saved(1) by simp
  ultimately show ?thesis using assms saved(4)
    by (auto simp: cursor_of_saveSnapshot crawl_start_page or_else_def split: if_splits)
qed

lemma run_batches_cursor:
  "sorted (map cursor_of (b # map snd (run_batches lc calls b)))
   \<and> (1 \<le> cursor_of b \<longrightarrow> list_all (\<lambda>b'. 1 \<le> cursor_of b') (map snd (run_batches lc calls b)))"
proof (induction calls arbitrary: b)
  case Nil
  show ?case by simp
next
  case (Cons c calls)
  obtain up steps t_load t_save where c: "c = (up, steps, t_load, t_save)"
    by (cases c)
  obtain r b' where r: "crawlBatch lc up steps t_load t_save b = (r, b')"
    by (cases "crawlBatch lc up steps t_load t_save b")
  have step: "cursor_of b \<le> cursor_of b'" "1 \<le> cursor_of b \<longrightarrow> 1 \<le> cursor_of b'"
    using crawlBatch_cursor[OF r] by simp_all
  have rb: "run_batches lc (c # calls) b = (r, b') # run_batches lc calls b'"
    by (simp add: c r)
  show ?case using Cons.IH[of b'] step by (auto simp: rb)
qed


lemma fetchDirectoryPage_cong:
  "up n = up' n \<Longrightarrow> fetchDirectoryPage up n = fetchDirectoryPage up' n"
  by (simp add: fetchDirectoryPage_def)

lemma parseCards_Nil [simp]: "parseCards [] = []"
  by (simp add: parseCards_def)

lemma fetch_non_success:
  "up n = Response False hs \<Longrightarrow> fetchDirectoryPage up n = Inr []"
  by (simp add: fetchDirectoryPage_def)

lemma crawl_loop_cong:
  assumes "\<forall>n. fetchDirectoryPage up n = fetchDirectoryPage up' n"
  shows "crawl_loop up steps hardStop st = crawl_loop up' steps hardStop st"
proof (induction st rule: crawl_loop_cases[where up = up and steps = steps and hardStop = hardStop])
  case (stop st)
  then show ?case by (simp add: crawl_loop_stop)
next
  case (rejected st e)
  then show ?case
    using crawl_loop_rejected[of st steps hardStop up e]
      crawl_loop_rejected[of st steps hardStop up' e] assms by simp
next
  case (empty_last st)
  then show ?case
    using crawl_loop_empty_last[of st steps hardStop up]
      crawl_loop_empty_last[of st steps hardStop up'] assms by simp
next
  case (empty_next st)
  then show ?case
    using crawl_loop_empty_next[of st steps hardStop up]
      crawl_loop_empty_next[of st steps hardStop up'] assms by simp
next
  case (items st its)
  then show ?case
    using crawl_loop_items[of st steps hardStop up its]
      crawl_loop_items[of st steps hardStop up' its] assms by simp
qed

lemma crawlBatch_cong:
  assumes "\<forall>n. fetchDirectoryPage up n = fetchDirectoryPage up' n"
  shows "crawlBatch lc up steps t_load t_save b = crawlBatch lc up' steps t_load t_save b"
proof -
  have "crawl_loop up steps = crawl_loop up' steps"
    by (intro ext) (rule crawl_loop_cong[OF assms])
  then show ?thesis by (simp only: crawlBatch_def)
qed

lemma non_success_as_empty:
  assumes "up n = Response False hs"
  shows "crawlBatch lc up steps t_load t_save b =
         crawlBatch lc (up(n := Response True [])) steps t_load t_save b"
  by (rule crawlBatch_cong) (simp add: fetchDirectoryPage_def assms)

lemma crawlBatch_count:
  assumes "\<forall>n. \<not> is_Rejected (up n)" "\<not> complete (fst (loadSnapshot lc t_load b))"
  shows "\<exists>r b'. crawlBatch lc up steps t_load t_save b = (Inr r, b') \<and>
     res_crawledPages r =
       max 0 (min steps (hardStop_of (fst (loadSnapshot lc t_load b)) - max 1 (cursor_of b) + 1)) \<and>
     nextCursor r = max 1 (cursor_of b) + res_crawledPages r \<and>
     cursor_of b' = nextCursor r"
proof (cases rule: crawlBatch_cases[of lc t_load b up steps t_save])
  case (noop sn b1)
  then show ?thesis using assms by simp
next
  case (failed sn b1 e)
  obtain st' where "crawl_loop up steps (hardStop_of sn) (crawl_start sn) = Inr st'"
    using crawl_loop_count[OF assms(1), of "hardStop_of sn" "crawl_start sn" steps]
      capped_hardStop_of[of sn] by (auto simp: crawl_start_def)
  then show ?thesis using failed by simp
next
  case (saved sn b1 st)
  have c: "cursor sn = cursor_of b"
    using cursor_of_loadSnapshot(1)[of lc t_load b] saved(1) by simp
  have p: "page (crawl_start sn) = max 1 (cursor_of b)"
    by (simp add: crawl_start_page c or_else_def)
  have "crawledPages st = max 0 (min steps (hardStop_of sn - max 1 (cursor_of b) + 1))
      \<and> page st = max 1 (cursor_of b) + crawledPages st"
    using crawl_loop_count[OF assms(1), of "hardStop_of sn" "crawl_start sn" steps]
      capped_hardStop_of[of sn] saved(3) p by (auto simp: crawl_start_def)
  then show ?thesis using saved(1,4)
    by (auto simp: cursor_of_saveSnapshot or_else_def)
qed

lemma scheduled_Some:
  "scheduled lc up t0 t_load t_save (Some s) =
     crawlBatch lc up BATCH_PAGES_DEFAULT t_load t_save (saveSnapshot (tick (repair lc t0 s)))"
  by (simp add: scheduled_def)

lemma tick_reset:
  "1440 \<le> cronTicks sn + 1 \<Longrightarrow> tick sn = sn\<lparr> complete := False, cursor := 1, cronTicks := 0 \<rparr>"
  by (simp add: tick_def or_else_def Let_def)

lemma tick_count:
  "cronTicks sn + 1 < 1440 \<Longrightarrow> tick sn = sn\<lparr> cronTicks := cronTicks sn + 1 \<rparr>"
  by (simp add: tick_def or_else_def Let_def)

lemma scheduled_reset:
  assumes "s_cronTicks s = Some 1439"
  shows "scheduled lc up t0 t_load t_save (Some s) =
           crawlBatch lc up BATCH_PAGES_DEFAULT t_load t_save
             (Some ((to_stored (repair lc t0 s))
                \<lparr> s_cursor := Some 1, s_complete := Some False, s_cronTicks := Some 0 \<rparr>))"
  using assms
  by (simp add: scheduled_Some tick_reset or_else_def saveSnapshot_def to_stored_def)

lemma scheduled_count:
  assumes "or_else (s_cronTicks s) 0 + 1 < 1440"
  shows "scheduled lc up t0 t_load t_save (Some s) =
           crawlBatch lc up BATCH_PAGES_DEFAULT t_load t_save
             (Some ((to_stored (repair lc t0 s))
                \<lparr> s_cronTicks := Some (or_else (s_cronTicks s) 0 + 1) \<rparr>))"
  using assms
  by (simp add: scheduled_Some tick_count saveSnapshot_def to_stored_def)

lemma reset_bucket_start:
  assumes "s_cursor s = Some 1" "s_complete s = Some False"
  shows "\<not> complete (fst (loadSnapshot lc now (Some s)))"
    "page (crawl_start (fst (loadSnapshot lc now (Some s)))) = 1"
  using assms by (simp_all add: crawl_start_def or_else_def)

section \<open>The cursor\<close>

text \<open>
  C5. Over every sequence of \<open>runBatch\<close> calls, whatever each call fetches and whether it
  ends with a result or with an error, the cursor of the bucket never decreases, and a
  cursor that is at least 1 stays so. A call that is not a no-op and returns sets the
  cursor to the page index it stopped at, which is at least \<open>max(1, old cursor)\<close>. The
  cursor of the bucket is the cursor \<open>loadSnapshot\<close> returns.
\<close>

theorem cursor_never_decreases:
  "sorted (map cursor_of (b # map snd (run_batches lc calls b)))
   \<and> (1 \<le> cursor_of b \<longrightarrow>
        list_all (\<lambda>b'. 1 \<le> cursor_of b') (map snd (run_batches lc calls b)))
   \<and> (crawlBatch lc up steps t_load t_save b = (Inr r, b')
        \<and> \<not> complete (fst (loadSnapshot lc t_load b)) \<longrightarrow>
          cursor_of b' = nextCursor r \<and> max 1 (cursor_of b) \<le> nextCursor r)
   \<and> cursor (fst (loadSnapshot lc now b)) = cursor_of b"
  using run_batches_cursor[of b lc calls] crawlBatch_new_cursor[of lc up steps t_load t_save b r b']
    cursor_of_loadSnapshot(1)[of lc now b]
  by blast

lemma flaky_batch:
  "crawlBatch code_unit_compare flaky 2 100 101 node_bucket =
     (Inr \<lparr> res_crawledPages = 2, res_addedItems = 1, reachedEnd = False, nextCursor = 4,
            total = 4, res_lastPage = None \<rparr>,
      Some \<lparr> s_items = Some (map (to_raw \<circ> mk_item) [''gonode'', ''nginx'', ''node'', ''nodejs'']),
             s_cursor = Some 4, s_lastPage = None, s_complete = Some False,
             s_lastUpdated = Some 101, s_cronTicks = Some 0 \<rparr>)"
  by code_simp

theorem cursor_never_decreases_witness:
  "1 \<le> cursor_of node_bucket
   \<and> \<not> complete (fst (loadSnapshot code_unit_compare 100 node_bucket))
   \<and> cursor_of node_bucket = 2
   \<and> cursor_of (snd (crawlBatch code_unit_compare flaky 2 100 101 node_bucket)) = 4
   \<and> list_all (\<lambda>b'. 1 \<le> cursor_of b')
        (map snd (run_batches code_unit_compare [(flaky, 2, 100, 101)] node_bucket))"
proof -
  have h: "1 \<le> cursor_of node_bucket" "cursor_of node_bucket = 2"
    by (simp_all add: cursor_of_def node_bucket_def or_else_def)
  have c: "\<not> complete (fst (loadSnapshot code_unit_compare 100 node_bucket))"
    by (simp add: node_bucket_def)
  show ?thesis
    using h c flaky_batch
      cursor_never_decreases[of node_bucket code_unit_compare "[(flaky, 2, 100, 101)]"
        flaky 2 100 101
        "\<lparr> res_crawledPages = 2, res_addedItems = 1, reachedEnd = False, nextCursor = 4,
            total = 4, res_lastPage = None \<rparr>"
        "Some \<lparr> s_items = Some (map (to_raw \<circ> mk_item) [''gonode'', ''nginx'', ''node'', ''nodejs'']),
             s_cursor = Some 4, s_lastPage = None, s_complete = Some False,
             s_lastUpdated = Some 101, s_cronTicks = Some 0 \<rparr>" 100]
    by (simp del: list.map map_map)
qed

section \<open>One tick of the scheduler\<close>

text \<open>
  C8. When the stored \<open>cronTicks\<close> is 1439, the tick saves the loaded snapshot with
  \<open>cursor = 1\<close>, \<open>complete = false\<close> and \<open>cronTicks = 0\<close> and then runs \<open>crawlBatch\<close> with
  \<open>BATCH_PAGES_DEFAULT\<close> steps on that bucket: the batch is no no-op, its page index starts
  at 1, and when no fetch is rejected it returns with the cursor at 1 plus the number of
  pages it crawled. When \<open>cronTicks + 1\<close> is below 1440, the tick saves the loaded snapshot
  with only \<open>cronTicks\<close> changed, to \<open>cronTicks + 1\<close>, and then runs the batch.
\<close>

theorem scheduler_threshold:
  "(s_cronTicks s = Some 1439 \<longrightarrow>
      (let reset = (to_stored (repair lc t0 s))
                     \<lparr> s_cursor := Some 1, s_complete := Some False, s_cronTicks := Some 0 \<rparr>
       in scheduled lc up t0 t_load t_save (Some s) =
            crawlBatch lc up BATCH_PAGES_DEFAULT t_load t_save (Some reset)
          \<and> \<not> complete (fst (loadSnapshot lc t_load (Some reset)))
          \<and> page (crawl_start (fst (loadSnapshot lc t_load (Some reset)))) = 1
          \<and> ((\<forall>n. \<not> is_Rejected (up n)) \<longrightarrow>
               (\<exists>r b'. scheduled lc up t0 t_load t_save (Some s) = (Inr r, b') \<and>
                       nextCursor r = 1 + res_crawledPages r))))
   \<and> (or_else (s_cronTicks s) 0 + 1 < 1440 \<longrightarrow>
        scheduled lc up t0 t_load t_save (Some s) =
          crawlBatch lc up BATCH_PAGES_DEFAULT t_load t_save
            (Some ((to_stored (repair lc t0 s))
               \<lparr> s_cronTicks := Some (or_else (s_cronTicks s) 0 + 1) \<rparr>)))"
proof (intro conjI impI)
  assume h: "s_cronTicks s = Some 1439"
  let ?reset = "(to_stored (repair lc t0 s))
                     \<lparr> s_cursor := Some 1, s_complete := Some False, s_cronTicks := Some 0 \<rparr>"
  have e: "scheduled lc up t0 t_load t_save (Some s) =
            crawlBatch lc up BATCH_PAGES_DEFAULT t_load t_save (Some ?reset)"
    by (rule scheduled_reset[OF h])
  have c: "\<not> complete (fst (loadSnapshot lc t_load (Some ?reset)))"
    and p: "page (crawl_start (fst (loadSnapshot lc t_load (Some ?reset)))) = 1"
    by (rule reset_bucket_start; simp)+
  have n: "(\<forall>n. \<not> is_Rejected (up n)) \<longrightarrow>
               (\<exists>r b'. scheduled lc up t0 t_load t_save (Some s) = (Inr r, b') \<and>
                       nextCursor r = 1 + res_crawledPages r)"
  proof
    assume a: "\<forall>n. \<not> is_Rejected (up n)"
    have "cursor_of (Some ?reset) = 1" by (simp add: cursor_of_def or_else_def)
    then show "\<exists>r b'. scheduled lc up t0 t_load t_save (Some s) = (Inr r, b') \<and>
                       nextCursor r = 1 + res_crawledPages r"
      using crawlBatch_count[OF a c, where steps = BATCH_PAGES_DEFAULT and t_save = t_save] e by auto
  qed
  show "let reset = ?reset
       in scheduled lc up t0 t_load t_save (Some s) =
            crawlBatch lc up BATCH_PAGES_DEFAULT t_load t_save (Some reset)
          \<and> \<not> complete (fst (loadSnapshot lc t_load (Some reset)))
          \<and> page (crawl_start (fst (loadSnapshot lc t_load (Some reset)))) = 1
          \<and> ((\<forall>n. \<not> is_Rejected (up n)) \<longrightarrow>
               (\<exists>r b'. scheduled lc up t0 t_load t_save (Some s) = (Inr r, b') \<and>
                       nextCursor r = 1 + res_crawledPages r))"
    unfolding Let_def using e c p n by blast
next
  assume "or_else (s_cronTicks s) 0 + 1 < 1440"
  then show "scheduled lc up t0 t_load t_save (Some s) =
          crawlBatch lc up BATCH_PAGES_DEFAULT t_load t_save
            (Some ((to_stored (repair lc t0 s))
               \<lparr> s_cronTicks := Some (or_else (s_cronTicks s) 0 + 1) \<rparr>))"
    by (rule scheduled_count)
qed

lemma day_end_tick:
  "scheduled code_unit_compare flaky 99 100 101 (Some day_end) =
     (Inr \<lparr> res_crawledPages = 2, res_addedItems = 0, reachedEnd = True, nextCursor = 3,
            total = 2, res_lastPage = Some 2 \<rparr>,
      Some \<lparr> s_items = Some (map (to_raw \<circ> mk_item) [''nginx'', ''node'']),
             s_cursor = Some 3, s_lastPage = Some 2, s_complete = Some True,
             s_lastUpdated = Some 101, s_cronTicks = Some 0 \<rparr>)"
  by code_simp

lemma ordinary_tick:
  "scheduled code_unit_compare flaky 99 100 101 (Some finished_snapshot) =
     (Inr \<lparr> res_crawledPages = 0, res_addedItems = 0, reachedEnd = True, nextCursor = 3,
            total = 2, res_lastPage = Some 2 \<rparr>,
      Some (finished_snapshot\<lparr> s_cronTicks := Some 8 \<rparr>))"
  by code_simp

theorem scheduler_threshold_witness:
  "s_cronTicks day_end = Some 1439
   \<and> (\<forall>n. \<not> is_Rejected (flaky n))
   \<and> or_else (s_cronTicks finished_snapshot) 0 + 1 < 1440
   \<and> crawlBatch code_unit_compare flaky BATCH_PAGES_DEFAULT 100 101
        (Some ((to_stored (repair code_unit_compare 99 day_end))
           \<lparr> s_cursor := Some 1, s_complete := Some False, s_cronTicks := Some 0 \<rparr>)) =
       (Inr \<lparr> res_crawledPages = 2, res_addedItems = 0, reachedEnd = True, nextCursor = 3,
              total = 2, res_lastPage = Some 2 \<rparr>,
        Some \<lparr> s_items = Some (map (to_raw \<circ> mk_item) [''nginx'', ''node'']),
               s_cursor = Some 3, s_lastPage = Some 2, s_complete = Some True,
               s_lastUpdated = Some 101, s_cronTicks = Some 0 \<rparr>)
   \<and> crawlBatch code_unit_compare flaky BATCH_PAGES_DEFAULT 100 101
        (Some ((to_stored (repair code_unit_compare 99 finished_snapshot))
           \<lparr> s_cronTicks := Some (or_else (s_cronTicks finished_snapshot) 0 + 1) \<rparr>)) =
       (Inr \<lparr> res_crawledPages = 0, res_addedItems = 0, reachedEnd = True, nextCursor = 3,
              total = 2, res_lastPage = Some 2 \<rparr>,
        Some (finished_snapshot\<lparr> s_cronTicks := Some 8 \<rparr>))"
proof -
  have h1: "s_cronTicks day_end = Some 1439"
    by (simp add: day_end_def)
  have h2: "\<forall>n. \<not> is_Rejected (flaky n)"
    by (simp add: flaky_def)
  have h3: "or_else (s_cronTicks finished_snapshot) 0 + 1 < 1440"
    by (simp add: finished_snapshot_def or_else_def)
  show ?thesis
    using h1 h2 h3
      scheduler_threshold[of day_end code_unit_compare 99 flaky 100 101]
      scheduler_threshold[of finished_snapshot code_unit_compare 99 flaky 100 101]
      day_end_tick ordinary_tick
    by (simp add: Let_def del: list.map map_map)
qed

section \<open>Names in the snapshot\<close>

text \<open>
  Every snapshot that \<open>loadSnapshot\<close> returns has items with distinct names, all of them
  in its index; the merge keeps that, so every snapshot a batch saves has items with
  distinct names.
\<close>

lemma repair_loop_indexed:
  "indexed minimal sn \<Longrightarrow> indexed (fst (repair_loop its (minimal, sn))) (snd (repair_loop its (minimal, sn)))"
proof (induction its arbitrary: minimal sn)
  case Nil
  then show ?case by simp
next
  case (Cons it its)
  show ?case
  proof (cases "candidate_of it")
    case None
    then show ?thesis using Cons by simp
  next
    case (Some c)
    show ?thesis
    proof (cases "c = [] \<or> \<not> SLUG_RE c \<or> c \<in> set BAD_SLUGS \<or> sn c")
      case True
      then show ?thesis using Some Cons by simp
    next
      case False
      then have "indexed (minimal @ [mk_item c]) (sn(c := True))"
        using Cons.prems by (auto simp: indexed_def mk_item_def)
      from Cons.IH[OF this]
      have "indexed (fst (repair_loop its (minimal @ [mk_item c], sn(c := True))))
              (snd (repair_loop its (minimal @ [mk_item c], sn(c := True))))" .
      moreover have "repair_loop (it # its) (minimal, sn) =
          repair_loop its (minimal @ [mk_item c], sn(c := True))"
        using Some False by simp
      ultimately show ?thesis by (simp only:)
    qed
  qed
qed

lemma loaded_indexed:
  "indexed (items (fst (loadSnapshot lc now b))) (seen (fst (loadSnapshot lc now b)))"
proof (cases b)
  case None
  then show ?thesis by (simp add: loadSnapshot_def freshSnapshot_def indexed_def)
next
  case (Some s)
  obtain minimal sn where
    r: "repair_loop (case s_items s of Some xs \<Rightarrow> xs | None \<Rightarrow> []) ([], \<lambda>k. False) = (minimal, sn)"
    by (cases "repair_loop (case s_items s of Some xs \<Rightarrow> xs | None \<Rightarrow> []) ([], \<lambda>k. False)")
  have "indexed (fst (repair_loop (case s_items s of Some xs \<Rightarrow> xs | None \<Rightarrow> []) ([], \<lambda>k. False)))
          (snd (repair_loop (case s_items s of Some xs \<Rightarrow> xs | None \<Rightarrow> []) ([], \<lambda>k. False)))"
    by (rule repair_loop_indexed) (simp add: indexed_def)
  then have "indexed minimal sn" by (simp add: r)
  then show ?thesis using Some
    by (simp add: repair_def r indexed_def)
qed

lemma merge_items_indexed:
  "indexed (items (snap st)) (seen (snap st)) \<Longrightarrow>
     indexed (items (snap (merge_items its st))) (seen (snap (merge_items its st)))"
proof (induction its arbitrary: st)
  case Nil
  then show ?case by simp
next
  case (Cons it its)
  show ?case
  proof (cases "seen (snap st) (name it)")
    case True
    then show ?thesis using Cons by simp
  next
    case False
    let ?st = "st\<lparr> snap := (snap st)\<lparr> seen := (seen (snap st))(name it := True),
                                     items := items (snap st) @ [it] \<rparr>,
                  addedItems := addedItems st + 1 \<rparr>"
    have "indexed (items (snap ?st)) (seen (snap ?st))"
      using Cons.prems False by (auto simp: indexed_def)
    from Cons.IH[OF this] show ?thesis using False by simp
  qed
qed

lemma crawl_loop_indexed:
  "crawl_loop up steps hardStop st = Inr st' \<Longrightarrow> indexed (items (snap st)) (seen (snap st)) \<Longrightarrow>
     indexed (items (snap st')) (seen (snap st'))"
proof (induction st rule: crawl_loop_cases[where up = up and steps = steps and hardStop = hardStop])
  case (stop st)
  then show ?case using crawl_loop_stop[of st steps hardStop up] by simp
next
  case (rejected st e)
  then show ?case using crawl_loop_rejected[of st steps hardStop up e] by simp
next
  case (empty_last st)
  then show ?case using crawl_loop_empty_last[of st steps hardStop up] by auto
next
  case (empty_next st)
  then show ?case using crawl_loop_empty_next[of st steps hardStop up] by simp
next
  case (items st its)
  have "indexed (items (snap (merge_items its (st\<lparr> crawledPages := crawledPages st + 1 \<rparr>))))
     (seen (snap (merge_items its (st\<lparr> crawledPages := crawledPages st + 1 \<rparr>))))"
    by (rule merge_items_indexed) (use items.prems(2) in simp)
  then show ?case using items crawl_loop_items[of st steps hardStop up its] by simp
qed

lemma saved_names_distinct:
  assumes "crawlBatch lc up steps t_load t_save b = (Inr r, Some s')"
    and "\<not> complete (fst (loadSnapshot lc t_load b))"
  shows "\<exists>xs. s_items s' = Some (map to_raw xs) \<and> distinct (map name xs)"
proof (cases rule: crawlBatch_cases[of lc t_load b up steps t_save])
  case (noop sn b1)
  then show ?thesis using assms by simp
next
  case (failed sn b1 e)
  then show ?thesis using assms by simp
next
  case (saved sn b1 st)
  have "indexed (items sn) (seen sn)"
    using loaded_indexed[of lc t_load b] saved(1) by simp
  then have "indexed (items (snap st)) (seen (snap st))"
    using crawl_loop_indexed[OF saved(3)] by (simp add: crawl_start_def)
  then have "distinct (map name (items (crawl_finish lc t_save st)))"
    by (simp add: crawl_finish_def Let_def indexed_def)
  then show ?thesis using assms(1) saved(4)
    by (auto simp: saveSnapshot_def to_stored_def)
qed

text \<open>
  On an empty bucket the index of the fresh snapshot inherits \<open>constructor\<close>: the first
  batch does not add an image of that name, a batch on a stored snapshot does.
\<close>

lemma fresh_index_skips_constructor:
  "crawlBatch code_unit_compare constructor_page 1 100 101 None =
     (Inr \<lparr> res_crawledPages = 1, res_addedItems = 0, reachedEnd = False, nextCursor = 2,
            total = 0, res_lastPage = None \<rparr>,
      Some (empty_snapshot\<lparr> s_cursor := Some 2, s_lastUpdated := Some 101 \<rparr>))"
  "crawlBatch code_unit_compare constructor_page 1 100 101 (Some empty_snapshot) =
     (Inr \<lparr> res_crawledPages = 1, res_addedItems = 1, reachedEnd = False, nextCursor = 2,
            total = 1, res_lastPage = None \<rparr>,
      Some (empty_snapshot\<lparr> s_items := Some [to_raw (mk_item ''constructor'')],
              s_cursor := Some 2, s_lastUpdated := Some 101 \<rparr>))"
  by code_simp+

section \<open>A page that cannot be fetched\<close>

lemma fetch_rejected:
  "up n = Rejected m \<Longrightarrow> fetchDirectoryPage up n = Inl (FetchError m)"
  by (simp add: fetchDirectoryPage_def)

lemma crawl_loop_reaches_rejected:
  assumes "up p = Rejected m" "p \<le> hardStop"
  shows "capped hardStop (lastPage (snap st)) \<Longrightarrow> page st \<le> p \<Longrightarrow>
     p - page st < steps - crawledPages st \<Longrightarrow>
     (\<forall>q. page st \<le> q \<and> q < p \<longrightarrow> \<not> is_Rejected (up q)) \<Longrightarrow>
     crawl_loop up steps hardStop st = Inl (FetchError m)"
proof (induction st rule: crawl_loop_cases[where up = up and steps = steps and hardStop = hardStop])
  case (stop st)
  then show ?case using assms(2) by auto
next
  case (rejected st e)
  show ?case
  proof (cases "page st = p")
    case True
    then have "e = FetchError m"
      using rejected(3) fetch_rejected[of up p m] assms(1) by simp
    then show ?thesis
      using crawl_loop_rejected[OF rejected(1,2,3)] by simp
  next
    case False
    then have "\<not> is_Rejected (up (page st))" using rejected.prems by auto
    then show ?thesis using fetch_not_rejected[of up "page st" e] rejected(3) by simp
  qed
next
  case (empty_last st)
  have ne: "page st \<noteq> p"
    using empty_last(3) fetch_rejected[of up p m] assms(1) by auto
  have "hardStop \<le> page st"
    using empty_last(4) empty_last.prems(1)
    by (auto simp: capped_def at_lastPage_def split: option.splits)
  then show ?case using ne empty_last.prems(2) assms(2) by simp
next
  case (empty_next st)
  have ne: "page st \<noteq> p"
    using empty_next(3) fetch_rejected[of up p m] assms(1) by auto
  have "crawl_loop up steps hardStop
          (st\<lparr> crawledPages := crawledPages st + 1, page := page st + 1 \<rparr>) = Inl (FetchError m)"
    using empty_next.prems ne by (intro empty_next.IH) auto
  then show ?case using crawl_loop_empty_next[OF empty_next(1,2,3,4)] by simp
next
  case (items st its)
  have ne: "page st \<noteq> p"
    using items(3) fetch_rejected[of up p m] assms(1) by auto
  have "crawl_loop up steps hardStop
          ((merge_items its (st\<lparr> crawledPages := crawledPages st + 1 \<rparr>))\<lparr> page := page st + 1 \<rparr>)
        = Inl (FetchError m)"
    using items.prems ne by (intro items.IH) auto
  then show ?case using crawl_loop_items[OF items(1,2,3,4)] by simp
qed

lemma crawlBatch_error_bucket:
  assumes "crawlBatch lc up steps t_load t_save b = (Inl e, b')"
  shows "b' = snd (loadSnapshot lc t_load b)"
proof (cases rule: crawlBatch_cases[of lc t_load b up steps t_save])
  case (noop sn b1)
  then show ?thesis using assms by simp
next
  case (failed sn b1 e')
  then show ?thesis using assms by simp
next
  case (saved sn b1 st)
  then show ?thesis using assms by simp
qed

lemma crawlBatch_rejected:
  assumes "up p = Rejected m" "\<not> complete (fst (loadSnapshot lc t_load b))"
    and "max 1 (cursor_of b) \<le> p" "p \<le> hardStop_of (fst (loadSnapshot lc t_load b))"
    and "p - max 1 (cursor_of b) < steps"
    and "\<forall>q. max 1 (cursor_of b) \<le> q \<and> q < p \<longrightarrow> \<not> is_Rejected (up q)"
  shows "crawlBatch lc up steps t_load t_save b =
           (Inl (FetchError m), snd (loadSnapshot lc t_load b))"
proof -
  obtain sn b1 where l: "loadSnapshot lc t_load b = (sn, b1)"
    by (cases "loadSnapshot lc t_load b")
  have c: "cursor sn = cursor_of b"
    using cursor_of_loadSnapshot(1)[of lc t_load b] l by simp
  have p: "page (crawl_start sn) = max 1 (cursor_of b)"
    by (simp add: crawl_start_page c or_else_def)
  have "crawl_loop up steps (hardStop_of sn) (crawl_start sn) = Inl (FetchError m)"
  proof (rule crawl_loop_reaches_rejected[where up = up and p = p and m = m])
    show "up p = Rejected m" by (rule assms(1))
    show "p \<le> hardStop_of sn" using assms(4) l by simp
    show "capped (hardStop_of sn) (lastPage (snap (crawl_start sn)))"
      using capped_hardStop_of[of sn] by (simp add: crawl_start_def)
    show "page (crawl_start sn) \<le> p" using assms(3) p by simp
    show "p - page (crawl_start sn) < steps - crawledPages (crawl_start sn)"
      using assms(5) p by (simp add: crawl_start_def)
    show "\<forall>q. page (crawl_start sn) \<le> q \<and> q < p \<longrightarrow> \<not> is_Rejected (up q)"
      using assms(6) p by simp
  qed
  then show ?thesis using assms(2) l by (simp add: crawlBatch_def)
qed

text \<open>
  C9, as the code has it. A page whose response is not a success (\<open>res.ok\<close> is false)
  yields no items: the batch is the batch it would be had the page been fetched with no
  anchor in it. When no fetch of the upstream is rejected, a batch that is not a no-op
  returns after exactly \<open>min(steps, hardStop - start + 1)\<close> pages (none when that is
  negative), where \<open>start = max(1, cursor)\<close>, with the cursor advanced by one for each of
  them: no page, whatever it answers, ends the batch before its bounds.
  A rejected fetch is not caught. When the batch reaches a page whose fetch is rejected
  (the page is within \<open>steps\<close> and the hard stop, and no page before it is rejected),
  \<open>crawlBatch\<close> ends with that error. Whenever \<open>crawlBatch\<close> ends with an error it has saved
  nothing: the bucket is as \<open>loadSnapshot\<close> left it, which is the stored snapshot when
  there was one and the fresh snapshot when the bucket was empty.
\<close>

theorem page_fetch_failures:
  "(up n = Response False hs \<longrightarrow>
      fetchDirectoryPage up n = Inr []
      \<and> crawlBatch lc up steps t_load t_save b =
          crawlBatch lc (up(n := Response True [])) steps t_load t_save b
      \<and> ((\<forall>m. \<not> is_Rejected (up m)) \<and> \<not> complete (fst (loadSnapshot lc t_load b)) \<longrightarrow>
           (\<exists>r b'. crawlBatch lc up steps t_load t_save b = (Inr r, b') \<and>
              res_crawledPages r =
                max 0 (min steps (hardStop_of (fst (loadSnapshot lc t_load b))
                                    - max 1 (cursor_of b) + 1)) \<and>
              nextCursor r = max 1 (cursor_of b) + res_crawledPages r \<and>
              cursor_of b' = nextCursor r)))
   \<and> (up p = Rejected msg \<and> \<not> complete (fst (loadSnapshot lc t_load b))
        \<and> max 1 (cursor_of b) \<le> p \<and> p \<le> hardStop_of (fst (loadSnapshot lc t_load b))
        \<and> p - max 1 (cursor_of b) < steps
        \<and> (\<forall>q. max 1 (cursor_of b) \<le> q \<and> q < p \<longrightarrow> \<not> is_Rejected (up q)) \<longrightarrow>
          crawlBatch lc up steps t_load t_save b =
            (Inl (FetchError msg), snd (loadSnapshot lc t_load b)))
   \<and> (crawlBatch lc up steps t_load t_save b = (Inl e, b1) \<longrightarrow>
          b1 = snd (loadSnapshot lc t_load b))
   \<and> snd (loadSnapshot lc t_load (Some s)) = Some s
   \<and> snd (loadSnapshot lc t_load None) = saveSnapshot (freshSnapshot t_load)"
proof (intro conjI impI)
  assume a: "up n = Response False hs"
  show "fetchDirectoryPage up n = Inr []"
    using fetch_non_success[of up n hs] a by simp
  show "crawlBatch lc up steps t_load t_save b =
          crawlBatch lc (up(n := Response True [])) steps t_load t_save b"
    using non_success_as_empty[of up n hs lc steps t_load t_save b] a by simp
next
  assume "(\<forall>m. \<not> is_Rejected (up m)) \<and> \<not> complete (fst (loadSnapshot lc t_load b))"
  then show "\<exists>r b'. crawlBatch lc up steps t_load t_save b = (Inr r, b') \<and>
              res_crawledPages r =
                max 0 (min steps (hardStop_of (fst (loadSnapshot lc t_load b))
                                    - max 1 (cursor_of b) + 1)) \<and>
              nextCursor r = max 1 (cursor_of b) + res_crawledPages r \<and>
              cursor_of b' = nextCursor r"
    using crawlBatch_count[of up lc t_load b steps t_save] by blast
next
  assume "up p = Rejected msg \<and> \<not> complete (fst (loadSnapshot lc t_load b))
        \<and> max 1 (cursor_of b) \<le> p \<and> p \<le> hardStop_of (fst (loadSnapshot lc t_load b))
        \<and> p - max 1 (cursor_of b) < steps
        \<and> (\<forall>q. max 1 (cursor_of b) \<le> q \<and> q < p \<longrightarrow> \<not> is_Rejected (up q))"
  then show "crawlBatch lc up steps t_load t_save b =
            (Inl (FetchError msg), snd (loadSnapshot lc t_load b))"
    using crawlBatch_rejected[of up p msg lc t_load b steps t_save] by blast
next
  assume "crawlBatch lc up steps t_load t_save b = (Inl e, b1)"
  then show "b1 = snd (loadSnapshot lc t_load b)"
    by (rule crawlBatch_error_bucket)
next
  show "snd (loadSnapshot lc t_load (Some s)) = Some s" by simp
  show "snd (loadSnapshot lc t_load None) = saveSnapshot (freshSnapshot t_load)"
    by (simp add: loadSnapshot_def)
qed


theorem page_fetch_failures_witness:
  "flaky 2 = Response False []
   \<and> (\<forall>m. \<not> is_Rejected (flaky m))
   \<and> \<not> complete (fst (loadSnapshot code_unit_compare 100 node_bucket))
   \<and> fetchDirectoryPage flaky 2 = Inr []
   \<and> (\<exists>r b'. crawlBatch code_unit_compare flaky 2 100 101 node_bucket = (Inr r, b') \<and>
         res_crawledPages r = 2 \<and> nextCursor r = 4 \<and> cursor_of b' = 4)
   \<and> outage 2 = Rejected ''Network connection lost.''
   \<and> \<not> complete (fst (loadSnapshot code_unit_compare 100 (Some empty_snapshot)))
   \<and> max 1 (cursor_of (Some empty_snapshot)) \<le> 2
   \<and> 2 \<le> hardStop_of (fst (loadSnapshot code_unit_compare 100 (Some empty_snapshot)))
   \<and> 2 - max 1 (cursor_of (Some empty_snapshot)) < 5
   \<and> \<not> is_Rejected (outage 1)
   \<and> crawlBatch code_unit_compare outage 5 100 101 (Some empty_snapshot) =
       (Inl (FetchError ''Network connection lost.''), Some empty_snapshot)"
proof -
  have h1: "flaky 2 = Response False []" and h2: "\<forall>m. \<not> is_Rejected (flaky m)"
    by (simp_all add: flaky_def)
  have h3: "\<not> complete (fst (loadSnapshot code_unit_compare 100 node_bucket))"
    by (simp add: node_bucket_def)
  have c: "cursor_of node_bucket = 2"
    by (simp add: cursor_of_def node_bucket_def or_else_def)
  have s: "hardStop_of (fst (loadSnapshot code_unit_compare 100 node_bucket)) = 5000"
    by (simp add: node_bucket_def hardStop_of_def or_else_def MAX_PAGES_CAP_def)
  note t = page_fetch_failures[where up = flaky and n = 2 and hs = "[]"
        and lc = code_unit_compare and steps = 2 and t_load = 100 and t_save = 101
        and b = node_bucket]
  from t h1 have f: "fetchDirectoryPage flaky 2 = Inr []"
    by blast
  from t h1 h2 h3 obtain r b' where
    r: "crawlBatch code_unit_compare flaky 2 100 101 node_bucket = (Inr r, b')"
    "res_crawledPages r =
       max 0 (min 2 (hardStop_of (fst (loadSnapshot code_unit_compare 100 node_bucket))
                       - max 1 (cursor_of node_bucket) + 1))"
    "nextCursor r = max 1 (cursor_of node_bucket) + res_crawledPages r"
    "cursor_of b' = nextCursor r"
    by blast
  have "res_crawledPages r = 2 \<and> nextCursor r = 4 \<and> cursor_of b' = 4"
    using r(2,3,4) by (simp add: c s)
  with r(1) have e: "\<exists>r b'. crawlBatch code_unit_compare flaky 2 100 101 node_bucket = (Inr r, b') \<and>
         res_crawledPages r = 2 \<and> nextCursor r = 4 \<and> cursor_of b' = 4"
    by blast
  have g1: "outage 2 = Rejected ''Network connection lost.''"
    and g6: "\<not> is_Rejected (outage 1)"
    by (simp_all add: outage_def)
  have g2: "\<not> complete (fst (loadSnapshot code_unit_compare 100 (Some empty_snapshot)))"
    by (simp add: empty_snapshot_def)
  have c0: "cursor_of (Some empty_snapshot) = 1"
    by (simp add: cursor_of_def empty_snapshot_def or_else_def)
  have s0: "hardStop_of (fst (loadSnapshot code_unit_compare 100 (Some empty_snapshot))) = 5000"
    by (simp add: empty_snapshot_def hardStop_of_def or_else_def MAX_PAGES_CAP_def)
  have g7: "\<forall>q. max 1 (cursor_of (Some empty_snapshot)) \<le> q \<and> q < 2 \<longrightarrow> \<not> is_Rejected (outage q)"
    by (simp add: c0 outage_def)
  note u = page_fetch_failures[where up = outage and p = 2
        and msg = "''Network connection lost.''"
        and lc = code_unit_compare and steps = 5 and t_load = 100 and t_save = 101
        and b = "Some empty_snapshot" and s = empty_snapshot]
  have g3: "max 1 (cursor_of (Some empty_snapshot)) \<le> 2"
    and g5: "2 - max 1 (cursor_of (Some empty_snapshot)) < 5"
    by (simp_all add: c0)
  have g4: "2 \<le> hardStop_of (fst (loadSnapshot code_unit_compare 100 (Some empty_snapshot)))"
    using s0 by simp
  have a: "crawlBatch code_unit_compare outage 5 100 101 (Some empty_snapshot) =
       (Inl (FetchError ''Network connection lost.''),
        snd (loadSnapshot code_unit_compare 100 (Some empty_snapshot)))"
    using u g1 g2 g3 g4 g5 g7 by blast
  have a': "crawlBatch code_unit_compare outage 5 100 101 (Some empty_snapshot) =
       (Inl (FetchError ''Network connection lost.''), Some empty_snapshot)"
    using a by simp
  from h1 h2 h3 f e g1 g2 g3 g4 g5 g6 a' show ?thesis by (intro conjI)
qed

text \<open>
  C9, as the claim has it, fails for a fetch that fails by rejecting: with the cursor at 2
  and the fetch of page 2 rejected, the batch ends with the error, it does not go on to
  page 3, and the bucket keeps the cursor 2.
\<close>

theorem rejected_fetch_aborts_the_batch:
  "outage 2 = Rejected ''Network connection lost.''
   \<and> cursor_of node_bucket = 2
   \<and> crawlBatch code_unit_compare outage 5 100 101 node_bucket =
       (Inl (FetchError ''Network connection lost.''), node_bucket)"
  by code_simp

section \<open>The repair pass, twice\<close>

lemma plus_first_pass:
  "fst (repair_loop [\<lparr> raw_name = Some ''libstdc++'', raw_url = None \<rparr>] ([], \<lambda>k. False)) =
     [mk_item ''libstdc++'']"
  by code_simp

lemma plus_second_pass:
  "fst (repair_loop [to_raw (mk_item ''libstdc++'')] ([], \<lambda>k. False)) = [mk_item ''libstdc'']"
  by code_simp

lemma sortItems_single [simp]: "sortItems lc [x] = [x]"
  by (simp add: sortItems_def)

text \<open>
  C2. The claim says that a second repair pass changes nothing. On a stored item with
  the name \<open>libstdc++\<close> and no URL, the first pass keeps the name and writes the URL with
  \<open>%2B\<close> for each plus sign; the second pass derives the name from that URL, where the
  capture group ends before the \<open>%\<close>, and renames the item to \<open>libstdc\<close>.
\<close>

theorem repair_is_not_a_fixed_point:
  "map name (items (repair lc t plus_snapshot)) = [''libstdc++'']
   \<and> map name (items (repair lc t' (to_stored (repair lc t plus_snapshot)))) = [''libstdc'']
   \<and> items (repair lc t' (to_stored (repair lc t plus_snapshot))) \<noteq>
       items (repair lc t plus_snapshot)"
proof -
  have 1: "items (repair lc t plus_snapshot) = [mk_item ''libstdc++'']"
    by (simp add: repair_items plus_snapshot_def empty_snapshot_def plus_first_pass
        del: repair_loop.simps)
  have 2: "items (repair lc t' (to_stored (repair lc t plus_snapshot))) = [mk_item ''libstdc'']"
    by (simp add: repair_items[of lc t'] to_stored_def 1 plus_second_pass
        del: repair_loop.simps)
  show ?thesis by (simp add: 1 2 mk_item_def)
qed

section \<open>The merge, twice\<close>

text \<open>
  C4. The claim says that a second batch over the same page adds nothing. Page 1 lists
  the image \<open>libstdc++-dev\<close>. The first batch adds it and saves it with its URL, in which
  the plus signs are written \<open>%2B\<close>. Every later load derives the name \<open>libstdc\<close> from that
  URL (here the load of restart-crawl, which saves it), so the second batch over page 1
  does not find \<open>libstdc++-dev\<close> in the index and adds it again: \<open>addedItems\<close> is 1, not 0.
\<close>

theorem plus_slug_is_added_again:
  "crawlBatch code_unit_compare plus_page 1 100 101 (Some empty_snapshot) =
     (Inr \<lparr> res_crawledPages = 1, res_addedItems = 1, reachedEnd = False, nextCursor = 2,
            total = 1, res_lastPage = None \<rparr>,
      Some \<lparr> s_items = Some [to_raw (mk_item ''libstdc++-dev'')], s_cursor = Some 2,
             s_lastPage = None, s_complete = Some False, s_lastUpdated = Some 101,
             s_cronTicks = Some 0 \<rparr>)
   \<and> snd (restart_crawl_route code_unit_compare 102 admin_post (Some ''secret'')
        (Some \<lparr> s_items = Some [to_raw (mk_item ''libstdc++-dev'')], s_cursor = Some 2,
             s_lastPage = None, s_complete = Some False, s_lastUpdated = Some 101,
             s_cronTicks = Some 0 \<rparr>)) =
      Some \<lparr> s_items = Some [to_raw (mk_item ''libstdc'')], s_cursor = Some 1,
             s_lastPage = None, s_complete = Some False, s_lastUpdated = Some 101,
             s_cronTicks = Some 0 \<rparr>
   \<and> crawlBatch code_unit_compare plus_page 1 103 104
        (Some \<lparr> s_items = Some [to_raw (mk_item ''libstdc'')], s_cursor = Some 1,
             s_lastPage = None, s_complete = Some False, s_lastUpdated = Some 101,
             s_cronTicks = Some 0 \<rparr>) =
     (Inr \<lparr> res_crawledPages = 1, res_addedItems = 1, reachedEnd = False, nextCursor = 2,
            total = 2, res_lastPage = None \<rparr>,
      Some \<lparr> s_items = Some [to_raw (mk_item ''libstdc''), to_raw (mk_item ''libstdc++-dev'')],
             s_cursor = Some 2, s_lastPage = None, s_complete = Some False,
             s_lastUpdated = Some 104, s_cronTicks = Some 0 \<rparr>)"
  by code_simp

end
